theory Spec2Isabelle
  imports Complex_Main
begin

section \<open>The reaper state machine of lib/reaper-stream.js\<close>

text \<open>
  The reaper is a Moore machine (module mooremachine): every state has an entry function
  that arms timers, registers listeners and issues asynchronous requests, and the
  callbacks registered there are the only code that runs while the machine rests in the
  state. A \<^verbatim>\<open>gotoState\<close> disarms the timer, removes the listeners and turns the
  outstanding \<^verbatim>\<open>S.callback\<close> into a no-op before the entry function of the new
  state runs.

  The model is driven by the events the environment delivers: the two method calls
  \<^verbatim>\<open>start()\<close> and \<^verbatim>\<open>wake()\<close>, the expiry of the timer armed by the current
  state, and the replies of redis and of VMAPI. What the machine does to the outside
  (requests, store mutations, pushes) and every \<^verbatim>\<open>gotoState\<close> is appended to a
  trace. Logging is not modelled.

  JavaScript numbers are modelled by rationals: the throttle is only doubled, halved and
  compared, which binary floating point does exactly in the range that occurs.
\<close>

subsection \<open>Data\<close>

datatype state =
    Idle | ListVms | ListError | Next | CheckLastVisited | CheckReaped
  | FetchAndPush | Sleep_full | Sleep | CheckError

text \<open>An error object: its name and its message; the VMAPI error keeps its origin.\<close>

datatype error =
    Error string string
  | VMAPIError string error

fun error_name :: "error \<Rightarrow> string" where
  "error_name (Error n m) = n"
| "error_name (VMAPIError m origin) = ''VMAPIError''"

fun error_message :: "error \<Rightarrow> string" where
  "error_message (Error n m) = m"
| "error_message (VMAPIError m origin) = m"

text \<open>
  The part of a VM object the reaper looks at: \<^verbatim>\<open>obj.state\<close>, the truthiness of
  \<^verbatim>\<open>obj.destroyed\<close> and the \<^verbatim>\<open>origin\<close> tag.
\<close>

record vm =
  vm_uuid :: string
  vm_state :: "string option"
  vm_destroyed :: bool
  vm_origin :: "string option"

text \<open>What the machine does: state changes, requests, store mutations, pushes.\<close>

datatype action =
    Goto state
  | Scan string
  | Hget string string
  | Hset string string string
  | Del string
  | Fetch string
  | Push vm

text \<open>
  What the environment delivers. \<open>HgetOk val now\<close> is a successful field read together
  with \<^verbatim>\<open>Math.round((new Date()).getTime() / 1000)\<close> at the time of the callback;
  the truth value of \<open>FetchReply\<close> is what \<^verbatim>\<open>stream.push\<close> answers when the
  callback calls it (\<open>False\<close>: the pipeline is full).
\<close>

datatype event =
    Start
  | Wake
  | Timeout
  | ScanErr error
  | ScanOk string "string list"
  | HgetErr error
  | HgetOk "string option" int
  | FetchReply "error + vm" bool

record ReaperFSM =
  remaining :: "string list"
  vmuuid :: "string option"
  lastError :: "error option"
  retries :: int
  onTimer :: bool
  minSleep :: rat
  sleep :: rat
  maxSleep :: rat
  reapTime :: rat
  listCursor :: string
  state :: state
  timer :: "rat option"
  pending :: "action option"
  trace :: "action list"

subsection \<open>Helpers of the language\<close>

text \<open>\<^verbatim>\<open>String.prototype.split(':')\<close>.\<close>

fun split_colon :: "string \<Rightarrow> string list" where
  "split_colon [] = [[]]"
| "split_colon (c # cs) =
     (if c = CHR '':'' then [] # split_colon cs
      else (case split_colon cs of
              [] \<Rightarrow> [[c]]
            | p # ps \<Rightarrow> (c # p) # ps))"

text \<open>
  \<^verbatim>\<open>parseInt(val, 10)\<close>: leading white space, an optional sign, then the longest run
  of decimal digits; \<open>None\<close> is NaN. (Only ASCII white space; values beyond \<open>2^53\<close>,
  which a double rounds, do not occur among unix timestamps.)
\<close>

definition is_space :: "char \<Rightarrow> bool" where
  "is_space c = (c \<in> set [CHR '' '', CHR 0x09, CHR 0x0A, CHR 0x0B, CHR 0x0C, CHR 0x0D])"

definition is_digit :: "char \<Rightarrow> bool" where
  "is_digit c = (48 \<le> (of_char c :: nat) \<and> (of_char c :: nat) \<le> 57)"

fun digits_value :: "int \<Rightarrow> string \<Rightarrow> int" where
  "digits_value acc [] = acc"
| "digits_value acc (c # cs) =
     (if is_digit c then digits_value (acc * 10 + (of_char c - 48)) cs else acc)"

definition unsigned_int :: "string \<Rightarrow> int option" where
  "unsigned_int s =
     (case s of
        [] \<Rightarrow> None
      | c # cs \<Rightarrow> if is_digit c then Some (digits_value 0 s) else None)"

definition parseInt :: "string \<Rightarrow> int option" where
  "parseInt val =
     (case dropWhile is_space val of
        [] \<Rightarrow> None
      | c # cs \<Rightarrow>
          if c = CHR ''-'' then map_option uminus (unsigned_int cs)
          else if c = CHR ''+'' then unsigned_int cs
          else unsigned_int (c # cs))"

text \<open>String concatenation with \<^verbatim>\<open>this.vmuuid\<close>, which starts undefined.\<close>

definition uuid_string :: "ReaperFSM \<Rightarrow> string" where
  "uuid_string w = (case vmuuid w of None \<Rightarrow> ''undefined'' | Some u \<Rightarrow> u)"

definition vm_key :: "ReaperFSM \<Rightarrow> string" where
  "vm_key w = ''vm:'' @ uuid_string w"

definition emit :: "action \<Rightarrow> ReaperFSM \<Rightarrow> ReaperFSM" where
  "emit a w = w\<lparr>trace := trace w @ [a]\<rparr>"

definition request :: "action \<Rightarrow> ReaperFSM \<Rightarrow> ReaperFSM" where
  "request a w = w\<lparr>pending := Some a, trace := trace w @ [a]\<rparr>"

subsection \<open>Entry functions of the states\<close>

text \<open>Leaving the current state: timer, listeners and callback die, the change is traced.\<close>

definition transition :: "state \<Rightarrow> ReaperFSM \<Rightarrow> ReaperFSM" where
  "transition s w = w\<lparr>state := s, timer := None, pending := None, trace := trace w @ [Goto s]\<rparr>"

definition state_idle :: "ReaperFSM \<Rightarrow> ReaperFSM" where
  "state_idle w =
     (let w1 = w\<lparr>listCursor := ''0''\<rparr>
      in if onTimer w1 then w1\<lparr>timer := Some (reapTime w1 * 1000)\<rparr> else w1)"

definition state_listVms :: "ReaperFSM \<Rightarrow> ReaperFSM" where
  "state_listVms w = request (Scan (listCursor w)) (w\<lparr>timer := Some 10000\<rparr>)"

definition state_listError :: "ReaperFSM \<Rightarrow> ReaperFSM" where
  "state_listError w = w\<lparr>listCursor := ''0'', timer := Some 1000\<rparr>"

definition state_checkLastVisited :: "ReaperFSM \<Rightarrow> ReaperFSM" where
  "state_checkLastVisited w =
     request (Hget (vm_key w) ''last_visit'') (w\<lparr>timer := Some 1000\<rparr>)"

definition state_checkReaped :: "ReaperFSM \<Rightarrow> ReaperFSM" where
  "state_checkReaped w =
     request (Hget (vm_key w) ''reaped'') (w\<lparr>timer := Some 1000\<rparr>)"

definition state_fetchAndPush :: "ReaperFSM \<Rightarrow> ReaperFSM" where
  "state_fetchAndPush w = request (Fetch (uuid_string w)) (w\<lparr>timer := Some 5000\<rparr>)"

definition state_sleep_full :: "ReaperFSM \<Rightarrow> ReaperFSM" where
  "state_sleep_full w = w\<lparr>timer := Some (sleep w)\<rparr>"

definition state_sleep :: "ReaperFSM \<Rightarrow> ReaperFSM" where
  "state_sleep w = w\<lparr>timer := Some (sleep w)\<rparr>"

definition state_checkError :: "ReaperFSM \<Rightarrow> ReaperFSM" where
  "state_checkError w =
     (let w1 = w\<lparr>retries := retries w - 1\<rparr>
      in if retries w1 > 0 then w1\<lparr>timer := Some 1000\<rparr> else w1\<lparr>timer := Some 5000\<rparr>)"

text \<open>
  \<^verbatim>\<open>state_next\<close> leaves at once, for \<^verbatim>\<open>checkLastVisited\<close> with the id shifted off
  the worklist or for \<^verbatim>\<open>idle\<close>.
\<close>

definition state_next :: "ReaperFSM \<Rightarrow> ReaperFSM" where
  "state_next w =
     (let w1 = w\<lparr>retries := 3\<rparr>
      in case remaining w1 of
           x # xs \<Rightarrow>
             state_checkLastVisited
               (transition CheckLastVisited (w1\<lparr>vmuuid := Some x, remaining := xs\<rparr>))
         | [] \<Rightarrow> state_idle (transition Idle w1))"

fun gotoState :: "state \<Rightarrow> ReaperFSM \<Rightarrow> ReaperFSM" where
  "gotoState Idle w = state_idle (transition Idle w)"
| "gotoState ListVms w = state_listVms (transition ListVms w)"
| "gotoState ListError w = state_listError (transition ListError w)"
| "gotoState Next w = state_next (transition Next w)"
| "gotoState CheckLastVisited w = state_checkLastVisited (transition CheckLastVisited w)"
| "gotoState CheckReaped w = state_checkReaped (transition CheckReaped w)"
| "gotoState FetchAndPush w = state_fetchAndPush (transition FetchAndPush w)"
| "gotoState Sleep_full w = state_sleep_full (transition Sleep_full w)"
| "gotoState Sleep w = state_sleep (transition Sleep w)"
| "gotoState CheckError w = state_checkError (transition CheckError w)"

text \<open>The constructor: the fields, then \<^verbatim>\<open>FSM.call(this, 'idle')\<close>.\<close>

definition ReaperFSM_new :: ReaperFSM where
  "ReaperFSM_new =
     gotoState Idle
       \<lparr>remaining = [], vmuuid = None, lastError = None, retries = 3, onTimer = False,
        minSleep = 100, sleep = 100, maxSleep = 10000, reapTime = 3600,
        listCursor = ''0'', state = Idle, timer = None, pending = None, trace = []\<rparr>"

subsection \<open>The callbacks\<close>

definition redis_timeout :: error where
  "redis_timeout = Error ''Error'' ''Timed out waiting for redis response''"

definition vmapi_timeout :: error where
  "vmapi_timeout = Error ''Error'' ''Timed out waiting for VMAPI response''"

text \<open>
  \<^verbatim>\<open>ReaperFSM.prototype.fetch\<close>, on the answer of the HTTP client. \<^verbatim>\<open>utils.cleanVM\<close>
  lives in another module and is a parameter.
\<close>

definition fetch :: "(vm \<Rightarrow> vm) \<Rightarrow> error + vm \<Rightarrow> error + vm" where
  "fetch cleanVM r =
     (case r of
        Inl err \<Rightarrow> Inl err
      | Inr obj \<Rightarrow> Inr ((cleanVM obj)\<lparr>vm_origin := Some ''reaper''\<rparr>))"

text \<open>The loop of \<^verbatim>\<open>state_listVms\<close> over the keys of one page.\<close>

fun candidates :: "string list \<Rightarrow> string list" where
  "candidates [] = []"
| "candidates (k # ks) =
     (let parts = split_colon k
      in if length parts = 2 \<and> parts ! 0 = ''vm'' then (parts ! 1) # candidates ks
         else candidates ks)"

definition on_scan :: "error + string \<times> string list \<Rightarrow> ReaperFSM \<Rightarrow> ReaperFSM" where
  "on_scan r w =
     (case r of
        Inl err \<Rightarrow> gotoState ListError (w\<lparr>lastError := Some err\<rparr>)
      | Inr (cursor, keys) \<Rightarrow>
          (let w1 = w\<lparr>listCursor := cursor, remaining := remaining w @ candidates keys\<rparr>
           in if listCursor w1 = ''0'' then gotoState Next w1 else gotoState ListVms w1))"

definition on_last_visit :: "error + string option \<Rightarrow> int \<Rightarrow> ReaperFSM \<Rightarrow> ReaperFSM" where
  "on_last_visit r now w =
     (case r of
        Inl err \<Rightarrow> gotoState CheckError (w\<lparr>lastError := Some err\<rparr>)
      | Inr None \<Rightarrow> gotoState Next w
      | Inr (Some val) \<Rightarrow>
          (case parseInt val of
             None \<Rightarrow> gotoState Next w
           | Some lastVisited \<Rightarrow>
               if of_int (now - lastVisited) > reapTime w then gotoState CheckReaped w
               else gotoState Next w))"

definition on_reaped :: "error + string option \<Rightarrow> ReaperFSM \<Rightarrow> ReaperFSM" where
  "on_reaped r w =
     (case r of
        Inl err \<Rightarrow> gotoState CheckError (w\<lparr>lastError := Some err\<rparr>)
      | Inr (Some val) \<Rightarrow> request (Hget (vm_key w) ''last_recs'') w
      | Inr None \<Rightarrow> gotoState FetchAndPush w)"

definition on_last_recs :: "error + string option \<Rightarrow> ReaperFSM \<Rightarrow> ReaperFSM" where
  "on_last_recs r w =
     (if isl r \<or> r = Inr None \<or> r = Inr (Some ''{}'')
      then gotoState Next (emit (Del (vm_key w)) w)
      else gotoState FetchAndPush w)"

definition terminal :: "vm \<Rightarrow> bool" where
  "terminal obj =
     (vm_state obj = Some ''destroyed'' \<or> vm_destroyed obj \<or>
      vm_state obj = Some ''failed'' \<or> vm_state obj = Some ''incomplete'')"

definition on_fetch :: "error + vm \<Rightarrow> bool \<Rightarrow> ReaperFSM \<Rightarrow> ReaperFSM" where
  "on_fetch r accepted w =
     (case r of
        Inl err \<Rightarrow>
          gotoState CheckError
            (w\<lparr>lastError :=
                 Some (VMAPIError
                         (''Error from VMAPI: '' @ error_name err @ '': '' @ error_message err)
                         err)\<rparr>)
      | Inr obj \<Rightarrow>
          (let w1 = emit (Push obj) w
           in if \<not> accepted then gotoState Sleep_full w1
              else gotoState Sleep
                     (if terminal obj then emit (Hset (vm_key w1) ''reaped'' ''yes'') w1
                      else w1)))"

text \<open>The callback of the timer the current state has armed.\<close>

definition on_timeout :: "ReaperFSM \<Rightarrow> ReaperFSM" where
  "on_timeout w =
     (case state w of
        Idle \<Rightarrow> gotoState ListVms w
      | ListVms \<Rightarrow> gotoState ListError (w\<lparr>lastError := Some redis_timeout\<rparr>)
      | ListError \<Rightarrow> gotoState ListVms w
      | Next \<Rightarrow> w
      | CheckLastVisited \<Rightarrow> gotoState CheckError (w\<lparr>lastError := Some redis_timeout\<rparr>)
      | CheckReaped \<Rightarrow> gotoState CheckError (w\<lparr>lastError := Some redis_timeout\<rparr>)
      | FetchAndPush \<Rightarrow> gotoState CheckError (w\<lparr>lastError := Some vmapi_timeout\<rparr>)
      | Sleep_full \<Rightarrow>
          (let w1 = w\<lparr>sleep := sleep w * 2\<rparr>;
               w2 = (if sleep w1 > maxSleep w1 then w1\<lparr>sleep := maxSleep w1\<rparr> else w1)
           in gotoState Next w2)
      | Sleep \<Rightarrow> gotoState Next w
      | CheckError \<Rightarrow>
          if retries w > 0 then gotoState CheckLastVisited w else gotoState Next w)"

text \<open>
  \<^verbatim>\<open>ReaperFSM.prototype.wake\<close> emits \<^verbatim>\<open>wakeAsserted\<close>; only the two sleep
  states listen to it.
\<close>

definition wake :: "ReaperFSM \<Rightarrow> ReaperFSM" where
  "wake w =
     (case state w of
        Sleep_full \<Rightarrow> gotoState Next w
      | Sleep \<Rightarrow>
          (let w1 = w\<lparr>sleep := sleep w / 2\<rparr>
           in if sleep w1 < minSleep w1 then w1\<lparr>sleep := minSleep w1\<rparr> else w1)
      | _ \<Rightarrow> w)"

text \<open>\<^verbatim>\<open>ReaperFSM.prototype.start\<close>; only idle listens to \<^verbatim>\<open>startAsserted\<close>.\<close>

definition start :: "ReaperFSM \<Rightarrow> ReaperFSM" where
  "start w =
     (let w1 = w\<lparr>onTimer := True\<rparr>
      in if state w1 = Idle then gotoState ListVms w1 else w1)"

text \<open>
  One event. A reply reaches its callback only while the state that asked for it is
  still current; a timer fires only while it is armed.
\<close>

definition step :: "(vm \<Rightarrow> vm) \<Rightarrow> event \<Rightarrow> ReaperFSM \<Rightarrow> ReaperFSM" where
  "step cleanVM e w =
     (case e of
        Start \<Rightarrow> start w
      | Wake \<Rightarrow> wake w
      | Timeout \<Rightarrow> (if timer w = None then w else on_timeout w)
      | ScanErr err \<Rightarrow>
          (case pending w of
             Some (Scan c) \<Rightarrow> if state w = ListVms then on_scan (Inl err) w else w
           | _ \<Rightarrow> w)
      | ScanOk cursor keys \<Rightarrow>
          (case pending w of
             Some (Scan c) \<Rightarrow> if state w = ListVms then on_scan (Inr (cursor, keys)) w else w
           | _ \<Rightarrow> w)
      | HgetErr err \<Rightarrow>
          (case pending w of
             Some (Hget k f) \<Rightarrow>
               if state w = CheckLastVisited then on_last_visit (Inl err) 0 w
               else if state w = CheckReaped then
                 (if f = ''reaped'' then on_reaped (Inl err) w else on_last_recs (Inl err) w)
               else w
           | _ \<Rightarrow> w)
      | HgetOk val now \<Rightarrow>
          (case pending w of
             Some (Hget k f) \<Rightarrow>
               if state w = CheckLastVisited then on_last_visit (Inr val) now w
               else if state w = CheckReaped then
                 (if f = ''reaped'' then on_reaped (Inr val) w else on_last_recs (Inr val) w)
               else w
           | _ \<Rightarrow> w)
      | FetchReply r accepted \<Rightarrow>
          (case pending w of
             Some (Fetch u) \<Rightarrow>
               if state w = FetchAndPush then on_fetch (fetch cleanVM r) accepted w else w
           | _ \<Rightarrow> w))"

subsection \<open>The setter of the staleness threshold\<close>

text \<open>
  The argument of \<^verbatim>\<open>setReapTime\<close> is any JavaScript value: a finite number, one of
  the three other values of type number, or a value of another type.
  \<^verbatim>\<open>assert.number\<close> wants the type number and refuses NaN; the comparisons are
  those of the language.
\<close>

datatype jsval = JNumber rat | JNaN | JInfinity | JNegInfinity | JOther

datatype exn = AssertionError

definition assert_number :: "jsval \<Rightarrow> bool" where
  "assert_number v = (v \<noteq> JOther \<and> v \<noteq> JNaN)"

fun js_gt :: "jsval \<Rightarrow> rat \<Rightarrow> bool" where
  "js_gt (JNumber r) c = (r > c)"
| "js_gt JInfinity c = True"
| "js_gt v c = False"

fun js_lt :: "jsval \<Rightarrow> rat \<Rightarrow> bool" where
  "js_lt (JNumber r) c = (r < c)"
| "js_lt JNegInfinity c = True"
| "js_lt v c = False"

definition setReapTime :: "jsval \<Rightarrow> ReaperFSM \<Rightarrow> exn + ReaperFSM" where
  "setReapTime v w =
     (if \<not> assert_number v then Inl AssertionError
      else if \<not> (js_gt v 0 \<and> js_lt v (24 * 3600)) then Inl AssertionError
      else (case v of JNumber r \<Rightarrow> Inr (w\<lparr>reapTime := r\<rparr>) | _ \<Rightarrow> Inl AssertionError))"

subsection \<open>Runs\<close>

fun run :: "(vm \<Rightarrow> vm) \<Rightarrow> event list \<Rightarrow> ReaperFSM \<Rightarrow> ReaperFSM" where
  "run cleanVM [] w = w"
| "run cleanVM (e # es) w = run cleanVM es (step cleanVM e w)"

text \<open>
  How often, along a run, the timer of \<^verbatim>\<open>sleep_full\<close> expires, and how often a
  wake signal arrives in \<^verbatim>\<open>sleep\<close>.
\<close>

fun full_expiries :: "(vm \<Rightarrow> vm) \<Rightarrow> event list \<Rightarrow> ReaperFSM \<Rightarrow> nat" where
  "full_expiries cleanVM [] w = 0"
| "full_expiries cleanVM (e # es) w =
     (if e = Timeout \<and> state w = Sleep_full \<and> timer w \<noteq> None then 1 else 0)
     + full_expiries cleanVM es (step cleanVM e w)"

fun sleep_wakes :: "(vm \<Rightarrow> vm) \<Rightarrow> event list \<Rightarrow> ReaperFSM \<Rightarrow> nat" where
  "sleep_wakes cleanVM [] w = 0"
| "sleep_wakes cleanVM (e # es) w =
     (if e = Wake \<and> state w = Sleep then 1 else 0)
     + sleep_wakes cleanVM es (step cleanVM e w)"

text \<open>The actions that touch the outside beyond reading the store.\<close>

fun is_fetch :: "action \<Rightarrow> bool" where
  "is_fetch (Fetch u) = True"
| "is_fetch a = False"

fun is_push :: "action \<Rightarrow> bool" where
  "is_push (Push obj) = True"
| "is_push a = False"

fun is_mutation :: "action \<Rightarrow> bool" where
  "is_mutation (Hset k f v) = True"
| "is_mutation (Del k) = True"
| "is_mutation a = False"

text \<open>The replies of a scan that is answered page by page.\<close>

fun scan_replies :: "(string \<times> string list) list \<Rightarrow> event list" where
  "scan_replies [] = []"
| "scan_replies ((cursor, keys) # pages) = ScanOk cursor keys # scan_replies pages"

fun collected :: "(string \<times> string list) list \<Rightarrow> string list" where
  "collected [] = []"
| "collected ((cursor, keys) # pages) = candidates keys @ collected pages"

text \<open>
  The actions that are about the resource \<open>u\<close>: a read, a write or a delete on its key,
  and its fetch.
\<close>

fun concerns :: "string \<Rightarrow> action \<Rightarrow> bool" where
  "concerns u (Hget k f) = (k = ''vm:'' @ u)"
| "concerns u (Hset k f v) = (k = ''vm:'' @ u)"
| "concerns u (Del k) = (k = ''vm:'' @ u)"
| "concerns u (Fetch x) = (x = u)"
| "concerns u a = False"

text \<open>
  The machine is in the middle of a cycle and is done with \<open>u\<close>: the id is not on the
  worklist, and the machine sleeps or works on another id.
\<close>

definition moved_on :: "string \<Rightarrow> ReaperFSM \<Rightarrow> bool" where
  "moved_on u w =
     (state w \<in> set [CheckLastVisited, CheckReaped, FetchAndPush, Sleep_full, Sleep, CheckError] \<and>
      u \<notin> set (remaining w) \<and>
      (state w = Sleep_full \<or> state w = Sleep \<or> uuid_string w \<noteq> u))"

text \<open>
  From \<open>w\<close> to \<open>w'\<close> the trace has only grown, nothing added is about \<open>u\<close>, and the
  machine is still done with \<open>u\<close> unless it has gone back to idle.
\<close>

definition leaves_alone :: "string \<Rightarrow> ReaperFSM \<Rightarrow> ReaperFSM \<Rightarrow> bool" where
  "leaves_alone u w w' =
     (take (length (trace w)) (trace w') = trace w \<and>
      (\<forall>a \<in> set (drop (length (trace w)) (trace w')). \<not> concerns u a) \<and>
      (moved_on u w' \<or> Goto Idle \<in> set (drop (length (trace w)) (trace w'))))"

subsection \<open>Sample data\<close>

definition vm_destroyed_a :: vm where
  "vm_destroyed_a =
     \<lparr>vm_uuid = ''a'', vm_state = Some ''destroyed'', vm_destroyed = False, vm_origin = None\<rparr>"

definition vm_running_a :: vm where
  "vm_running_a =
     \<lparr>vm_uuid = ''a'', vm_state = Some ''running'', vm_destroyed = False, vm_origin = None\<rparr>"

text \<open>
  Sample states, each reached from the constructor: asleep after an accepted push with
  \<open>a\<close> left on the worklist; waiting for the \<open>last_visit\<close> of \<open>a\<close> with \<open>b\<close> left;
  waiting for the fetch of \<open>a\<close> with \<open>b\<close> left; in sleep_full with the throttle at
  100; asleep with the throttle at 400.
\<close>

definition sample_asleep :: ReaperFSM where
  "sample_asleep =
     run (\<lambda>x. x)
       [Start, ScanOk ''0'' [''vm:z'', ''vm:a''], HgetOk (Some ''0'') 7200, HgetOk None 7200,
        FetchReply (Inr vm_running_a) True]
       ReaperFSM_new"

definition sample_checking :: ReaperFSM where
  "sample_checking =
     run (\<lambda>x. x) [Start, ScanOk ''0'' [''vm:a'', ''vm:b'']] ReaperFSM_new"

definition sample_fetching :: ReaperFSM where
  "sample_fetching =
     run (\<lambda>x. x) [HgetOk (Some ''0'') 7200, HgetOk None 7200] sample_checking"

definition sample_full :: ReaperFSM where
  "sample_full =
     run (\<lambda>x. x)
       [Start, ScanOk ''0'' [''vm:a'', ''vm:b'', ''vm:c''], HgetOk (Some ''0'') 7200,
        HgetOk None 7200, FetchReply (Inr vm_destroyed_a) False]
       ReaperFSM_new"

definition sample_warm :: ReaperFSM where
  "sample_warm =
     run (\<lambda>x. x)
       [Timeout, HgetOk (Some ''0'') 7200, HgetOk None 7200, FetchReply (Inr vm_destroyed_a) False,
        Timeout, HgetOk (Some ''0'') 7200, HgetOk None 7200, FetchReply (Inr vm_destroyed_a) True]
       sample_full"

text \<open>
  A scan that has collected \<open>a\<close> when its second page fails, and a whole cycle in which
  the scan fails once after having collected \<open>a\<close>.
\<close>

definition sample_scanning :: ReaperFSM where
  "sample_scanning = run (\<lambda>x. x) [Start, ScanOk ''5'' [''vm:a'']] ReaperFSM_new"

definition duplicate_cycle :: "event list" where
  "duplicate_cycle =
     [Start, ScanOk ''5'' [''vm:a''], ScanErr (Error ''Error'' ''Connection is closed.''),
      Timeout, ScanOk ''0'' [''vm:a''],
      HgetOk (Some ''0'') 7200, HgetOk None 7200, FetchReply (Inr vm_running_a) True, Timeout,
      HgetOk (Some ''0'') 7200, HgetOk None 7200, FetchReply (Inr vm_running_a) True]"

text \<open>
  A cycle in which the scan fails once after having collected \<open>a\<close>, the first push of
  \<open>a\<close> meets a full pipeline and the second is accepted.
\<close>

definition duplicate_after_full :: "event list" where
  "duplicate_after_full =
     [Start, ScanOk ''5'' [''vm:a''], ScanErr (Error ''Error'' ''Connection is closed.''),
      Timeout, ScanOk ''0'' [''vm:a''],
      HgetOk (Some ''0'') 7200, HgetOk None 7200, FetchReply (Inr vm_destroyed_a) False, Timeout,
      HgetOk (Some ''0'') 7200, HgetOk None 7200, FetchReply (Inr vm_destroyed_a) True]"

section \<open>Basic facts\<close>

lemmas entry_defs = state_idle_def state_listVms_def state_listError_def
  state_checkLastVisited_def state_checkReaped_def state_fetchAndPush_def
  state_sleep_full_def state_sleep_def state_checkError_def state_next_def
  transition_def request_def emit_def

lemma gotoState_throttle [simp]:
  "sleep (gotoState s w) = sleep w"
  "minSleep (gotoState s w) = minSleep w"
  "maxSleep (gotoState s w) = maxSleep w"
  by (cases s; simp add: entry_defs Let_def split: list.splits)+

declare gotoState.simps [simp del]

lemma on_scan_throttle [simp]:
  "sleep (on_scan r w) = sleep w"
  "minSleep (on_scan r w) = minSleep w"
  "maxSleep (on_scan r w) = maxSleep w"
  by (simp_all add: on_scan_def Let_def split: sum.splits prod.splits)

lemma on_last_visit_throttle [simp]:
  "sleep (on_last_visit r n w) = sleep w"
  "minSleep (on_last_visit r n w) = minSleep w"
  "maxSleep (on_last_visit r n w) = maxSleep w"
  by (simp_all add: on_last_visit_def split: sum.splits option.splits)

lemma on_reaped_throttle [simp]:
  "sleep (on_reaped r w) = sleep w"
  "minSleep (on_reaped r w) = minSleep w"
  "maxSleep (on_reaped r w) = maxSleep w"
  by (simp_all add: on_reaped_def request_def split: sum.splits option.splits)

lemma on_last_recs_throttle [simp]:
  "sleep (on_last_recs r w) = sleep w"
  "minSleep (on_last_recs r w) = minSleep w"
  "maxSleep (on_last_recs r w) = maxSleep w"
  by (simp_all add: on_last_recs_def emit_def)

lemma on_fetch_throttle [simp]:
  "sleep (on_fetch r b w) = sleep w"
  "minSleep (on_fetch r b w) = minSleep w"
  "maxSleep (on_fetch r b w) = maxSleep w"
  by (simp_all add: on_fetch_def emit_def Let_def split: sum.splits)

lemma start_throttle [simp]:
  "sleep (start w) = sleep w"
  "minSleep (start w) = minSleep w"
  "maxSleep (start w) = maxSleep w"
  by (simp_all add: start_def Let_def)

lemma on_timeout_bounds [simp]:
  "minSleep (on_timeout w) = minSleep w"
  "maxSleep (on_timeout w) = maxSleep w"
  by (simp_all add: on_timeout_def Let_def split: state.splits)

lemma on_timeout_sleep:
  "sleep (on_timeout w) =
     (if state w = Sleep_full then min (sleep w * 2) (maxSleep w) else sleep w)"
  by (simp add: on_timeout_def Let_def min_def split: state.splits)

lemma wake_bounds [simp]:
  "minSleep (wake w) = minSleep w"
  "maxSleep (wake w) = maxSleep w"
  by (simp_all add: wake_def Let_def split: state.splits)

lemma wake_sleep:
  "sleep (wake w) =
     (if state w = Sleep then max (sleep w / 2) (minSleep w) else sleep w)"
  by (simp add: wake_def Let_def max_def split: state.splits)

lemma step_bounds [simp]:
  "minSleep (step cv e w) = minSleep w"
  "maxSleep (step cv e w) = maxSleep w"
  by (cases e; simp add: step_def split: option.splits action.splits)+

lemma step_sleep:
  "sleep (step cv e w) =
     (if e = Timeout \<and> state w = Sleep_full \<and> timer w \<noteq> None
      then min (sleep w * 2) (maxSleep w)
      else if e = Wake \<and> state w = Sleep then max (sleep w / 2) (minSleep w)
      else sleep w)"
  by (cases e; auto simp add: step_def on_timeout_sleep wake_sleep split: option.splits action.splits)


lemma run_append: "run cv (es @ es') w = run cv es' (run cv es w)"
  by (induction es arbitrary: w) simp_all

lemma run_bounds [simp]:
  "minSleep (run cv es w) = minSleep w"
  "maxSleep (run cv es w) = maxSleep w"
  by (induction es arbitrary: w) simp_all

lemma step_sleep_range:
  assumes "0 \<le> minSleep w" "minSleep w \<le> sleep w" "sleep w \<le> maxSleep w"
  shows "minSleep w \<le> sleep (step cv e w) \<and> sleep (step cv e w) \<le> maxSleep w"
  using assms by (auto simp: step_sleep min_def max_def)

lemma run_sleep_range:
  assumes "0 \<le> minSleep w" "minSleep w \<le> sleep w" "sleep w \<le> maxSleep w"
  shows "minSleep w \<le> sleep (run cv es w) \<and> sleep (run cv es w) \<le> maxSleep w"
  using assms
proof (induction es arbitrary: w)
  case Nil
  then show ?case by simp
next
  case (Cons e es)
  have "minSleep (step cv e w) \<le> sleep (step cv e w) \<and> sleep (step cv e w) \<le> maxSleep (step cv e w)"
    using step_sleep_range [OF Cons.prems] by simp
  with Cons.IH [of "step cv e w"] Cons.prems(1) show ?case by simp
qed

lemma le_mult_pow2:
  fixes x :: rat
  assumes "0 \<le> x"
  shows "x \<le> x * 2 ^ n"
proof -
  have "(1::rat) \<le> 2 ^ n" by simp
  then have "x * 1 \<le> x * 2 ^ n" using assms by (rule mult_left_mono)
  then show ?thesis by simp
qed

lemma double_cap:
  fixes s M :: rat
  assumes "0 \<le> s" "0 \<le> M"
  shows "min (min (s * 2) M * 2 ^ n) M = min (s * 2 ^ Suc n) M"
proof (cases "s * 2 \<le> M")
  case True
  then show ?thesis by (simp add: min_def mult.assoc)
next
  case False
  have "M \<le> M * 2 ^ n" using assms(2) by (rule le_mult_pow2)
  moreover have "s * 2 \<le> (s * 2) * 2 ^ n" using assms(1) by (intro le_mult_pow2) simp
  ultimately show ?thesis using False by (simp add: min_def mult.assoc)
qed

lemma halve_floor:
  fixes s m :: rat
  assumes "0 \<le> m"
  shows "max (max (s / 2) m / 2 ^ n) m = max (s / 2 ^ Suc n) m"
proof (cases "m \<le> s / 2")
  case True
  then show ?thesis by (simp add: max_def)
next
  case False
  have a: "m / 2 ^ n \<le> m"
    using le_mult_pow2 [OF assms, of n] by (simp add: divide_le_eq)
  have "s / 2 \<le> m * 2 ^ n"
    using False le_mult_pow2 [OF assms, of n] by simp
  then have b: "s / 2 ^ Suc n \<le> m"
    by (simp add: divide_le_eq mult.commute)
  show ?thesis using False a b by (simp add: max_def)
qed

lemma run_backoff:
  assumes "0 \<le> minSleep w" "minSleep w \<le> sleep w" "sleep w \<le> maxSleep w"
    and "sleep_wakes cv es w = 0"
  shows "sleep (run cv es w) = min (sleep w * 2 ^ full_expiries cv es w) (maxSleep w)"
  using assms
proof (induction es arbitrary: w)
  case Nil
  then show ?case by simp
next
  case (Cons e es)
  let ?w1 = "step cv e w"
  have r: "minSleep ?w1 \<le> sleep ?w1 \<and> sleep ?w1 \<le> maxSleep ?w1"
    using step_sleep_range [OF Cons.prems(1-3)] by simp
  have nw: "\<not> (e = Wake \<and> state w = Sleep)" and z: "sleep_wakes cv es ?w1 = 0"
    using Cons.prems(4) by (auto split: if_splits)
  have ih: "sleep (run cv es ?w1) = min (sleep ?w1 * 2 ^ full_expiries cv es ?w1) (maxSleep w)"
    using Cons.IH [of ?w1] r z Cons.prems(1) by simp
  show ?case
  proof (cases "e = Timeout \<and> state w = Sleep_full \<and> timer w \<noteq> None")
    case True
    then have "sleep ?w1 = min (sleep w * 2) (maxSleep w)" by (simp add: step_sleep)
    with ih True show ?thesis
      using double_cap [of "sleep w" "maxSleep w" "full_expiries cv es ?w1"] Cons.prems(1-3)
      by simp
  next
    case False
    with nw have "sleep ?w1 = sleep w" by (auto simp: step_sleep)
    with ih False show ?thesis by auto
  qed
qed

lemma run_anneal:
  assumes "0 \<le> minSleep w" "minSleep w \<le> sleep w" "sleep w \<le> maxSleep w"
    and "full_expiries cv es w = 0"
  shows "sleep (run cv es w) = max (sleep w / 2 ^ sleep_wakes cv es w) (minSleep w)"
  using assms
proof (induction es arbitrary: w)
  case Nil
  then show ?case by (simp add: max_def)
next
  case (Cons e es)
  let ?w1 = "step cv e w"
  have r: "minSleep ?w1 \<le> sleep ?w1 \<and> sleep ?w1 \<le> maxSleep ?w1"
    using step_sleep_range [OF Cons.prems(1-3)] by simp
  have nf: "\<not> (e = Timeout \<and> state w = Sleep_full \<and> timer w \<noteq> None)"
    and z: "full_expiries cv es ?w1 = 0"
    using Cons.prems(4) by (auto split: if_splits)
  have ih: "sleep (run cv es ?w1) = max (sleep ?w1 / 2 ^ sleep_wakes cv es ?w1) (minSleep w)"
    using Cons.IH [of ?w1] r z Cons.prems(1) by simp
  show ?case
  proof (cases "e = Wake \<and> state w = Sleep")
    case True
    then have "sleep ?w1 = max (sleep w / 2) (minSleep w)" by (simp add: step_sleep)
    with ih True show ?thesis
      using halve_floor [of "minSleep w" "sleep w" "sleep_wakes cv es ?w1"] Cons.prems(1)
      by simp
  next
    case False
    with nf have "sleep ?w1 = sleep w" by (auto simp: step_sleep)
    with ih False show ?thesis by auto
  qed
qed

lemma new_throttle:
  "minSleep ReaperFSM_new = 100" "sleep ReaperFSM_new = 100" "maxSleep ReaperFSM_new = 10000"
  by (simp_all add: ReaperFSM_new_def)

subsection \<open>Evaluating the machine\<close>

lemmas handler_defs = step_def start_def wake_def on_timeout_def on_scan_def
  on_last_visit_def on_reaped_def on_last_recs_def on_fetch_def fetch_def

lemmas eval_defs = handler_defs gotoState.simps entry_defs vm_key_def uuid_string_def Let_def

subsection \<open>Scanning\<close>

lemma scan_pages_run:
  assumes "state w = ListVms" "pending w = Some (Scan c)"
    and "\<forall>p \<in> set pages. fst p \<noteq> ''0''"
  shows "state (run cv (scan_replies pages) w) = ListVms \<and>
         (\<exists>c'. pending (run cv (scan_replies pages) w) = Some (Scan c')) \<and>
         remaining (run cv (scan_replies pages) w) = remaining w @ collected pages"
  using assms
proof (induction pages arbitrary: w c)
  case Nil
  then show ?case by simp
next
  case (Cons p pages)
  obtain cursor keys where p: "p = (cursor, keys)" by (cases p)
  have ne: "cursor \<noteq> ''0''" using Cons.prems(3) p by simp
  let ?w1 = "step cv (ScanOk cursor keys) w"
  have a: "state ?w1 = ListVms" "pending ?w1 = Some (Scan cursor)"
    "remaining ?w1 = remaining w @ candidates keys"
    using Cons.prems(1,2) ne by (simp_all add: eval_defs)
  have "state (run cv (scan_replies pages) ?w1) = ListVms \<and>
        (\<exists>c'. pending (run cv (scan_replies pages) ?w1) = Some (Scan c')) \<and>
        remaining (run cv (scan_replies pages) ?w1) = remaining ?w1 @ collected pages"
    using Cons.IH [OF a(1,2)] Cons.prems(3) by simp
  then show ?case using p a(3) by simp
qed

lemma scan_failure:
  assumes "state w = ListVms" "pending w = Some (Scan c)" "timer w \<noteq> None"
    and "failure = Timeout \<or> failure = ScanErr err"
  shows "state (step cv failure w) = ListError" "listCursor (step cv failure w) = ''0''"
    "remaining (step cv failure w) = remaining w"
    "trace (step cv failure w) = trace w @ [Goto ListError]"
    "timer (step cv failure w) = Some 1000"
  using assms by (auto simp add: eval_defs)

lemma scan_retry:
  assumes "state w = ListError" "timer w \<noteq> None" "listCursor w = ''0''"
  shows "state (step cv Timeout w) = ListVms" "pending (step cv Timeout w) = Some (Scan ''0'')"
    "remaining (step cv Timeout w) = remaining w"
    "trace (step cv Timeout w) = trace w @ [Goto ListVms, Scan ''0'']"
  using assms by (auto simp add: eval_defs)

lemma scan_last_page:
  assumes "state w = ListVms" "pending w = Some (Scan c)"
  shows "step cv (ScanOk ''0'' keys) w =
         gotoState Next (w\<lparr>listCursor := ''0'', remaining := remaining w @ candidates keys\<rparr>)"
  using assms by (simp add: step_def on_scan_def Let_def)

lemma count_twice:
  assumes "u \<in> set xs" "u \<in> set ys"
  shows "2 \<le> count_list (xs @ ys) u"
proof -
  have "count_list xs u \<noteq> 0" using assms(1) by (simp add: count_list_0_iff)
  moreover have "count_list ys u \<noteq> 0" using assms(2) by (simp add: count_list_0_iff)
  ultimately show ?thesis by simp
qed

lemma parseInt_0: "parseInt ''0'' = Some 0"
  by code_simp

lemma candidates_a: "candidates [''vm:a''] = [''a'']"
  by code_simp

lemma duplicate_cycle_trace:
  "trace (run cv duplicate_cycle ReaperFSM_new) =
     [Goto Idle, Goto ListVms, Scan ''0'', Goto ListVms, Scan ''5'', Goto ListError,
      Goto ListVms, Scan ''0'', Goto Next,
      Goto CheckLastVisited, Hget ''vm:a'' ''last_visit'', Goto CheckReaped,
      Hget ''vm:a'' ''reaped'', Goto FetchAndPush, Fetch ''a'',
      Push ((cv vm_running_a)\<lparr>vm_origin := Some ''reaper''\<rparr>)] @
     (if terminal ((cv vm_running_a)\<lparr>vm_origin := Some ''reaper''\<rparr>)
      then [Hset ''vm:a'' ''reaped'' ''yes''] else []) @
     [Goto Sleep, Goto Next,
      Goto CheckLastVisited, Hget ''vm:a'' ''last_visit'', Goto CheckReaped,
      Hget ''vm:a'' ''reaped'', Goto FetchAndPush, Fetch ''a'',
      Push ((cv vm_running_a)\<lparr>vm_origin := Some ''reaper''\<rparr>)] @
     (if terminal ((cv vm_running_a)\<lparr>vm_origin := Some ''reaper''\<rparr>)
      then [Hset ''vm:a'' ''reaped'' ''yes''] else []) @ [Goto Sleep]"
  by (cases "terminal ((cv vm_running_a)\<lparr>vm_origin := Some ''reaper''\<rparr>)")
     (simp_all add: duplicate_cycle_def ReaperFSM_new_def eval_defs parseInt_0 candidates_a
        del: candidates.simps)

section \<open>The throttle\<close>

text \<open>
  Claim C5. In every state the machine can reach from its constructor the throttle
  \<open>sleep\<close> lies between \<open>minSleep = 100\<close> and \<open>maxSleep = 10000\<close>. Along any
  further run in which no wake signal arrives in state sleep, it ends at
  \<open>min (initial * 2 ^ N) maxSleep\<close>, where \<open>N\<close> counts the expiries of the timer of
  sleep_full; along any run without such an expiry it ends at
  \<open>max (initial / 2 ^ N) minSleep\<close>, where \<open>N\<close> counts the wake signals received in
  state sleep. Entering idle leaves the value alone, and the runs may cross any number
  of reap cycles.
\<close>

theorem throttle_range_and_progression:
  "minSleep (run cv es (run cv es0 ReaperFSM_new)) = 100 \<and>
   maxSleep (run cv es (run cv es0 ReaperFSM_new)) = 10000 \<and>
   minSleep (run cv es (run cv es0 ReaperFSM_new)) \<le> sleep (run cv es (run cv es0 ReaperFSM_new)) \<and>
   sleep (run cv es (run cv es0 ReaperFSM_new)) \<le> maxSleep (run cv es (run cv es0 ReaperFSM_new)) \<and>
   (sleep_wakes cv es (run cv es0 ReaperFSM_new) = 0 \<longrightarrow>
      sleep (run cv es (run cv es0 ReaperFSM_new)) =
        min (sleep (run cv es0 ReaperFSM_new) * 2 ^ full_expiries cv es (run cv es0 ReaperFSM_new))
            (maxSleep (run cv es0 ReaperFSM_new))) \<and>
   (full_expiries cv es (run cv es0 ReaperFSM_new) = 0 \<longrightarrow>
      sleep (run cv es (run cv es0 ReaperFSM_new)) =
        max (sleep (run cv es0 ReaperFSM_new) / 2 ^ sleep_wakes cv es (run cv es0 ReaperFSM_new))
            (minSleep (run cv es0 ReaperFSM_new))) \<and>
   sleep (gotoState Idle (run cv es (run cv es0 ReaperFSM_new))) =
     sleep (run cv es (run cv es0 ReaperFSM_new))"
proof -
  let ?w = "run cv es0 ReaperFSM_new"
  have b: "minSleep ?w = 100" "maxSleep ?w = 10000"
    by (simp_all add: new_throttle)
  have "minSleep ReaperFSM_new \<le> sleep (run cv es0 ReaperFSM_new) \<and>
        sleep (run cv es0 ReaperFSM_new) \<le> maxSleep ReaperFSM_new"
    by (rule run_sleep_range) (simp_all add: new_throttle)
  then have r: "0 \<le> minSleep ?w" "minSleep ?w \<le> sleep ?w" "sleep ?w \<le> maxSleep ?w"
    by (simp_all add: new_throttle)
  have "minSleep ?w \<le> sleep (run cv es ?w) \<and> sleep (run cv es ?w) \<le> maxSleep ?w"
    using r by (rule run_sleep_range)
  then show ?thesis
    using run_backoff [OF r, of cv es] run_anneal [OF r, of cv es] b by simp
qed

text \<open>
  Three resources meet a full pipeline: after the first the machine is in sleep_full with
  the throttle at 100, and two expiries later it is at 400. When the third push is
  accepted instead, three wake signals in state sleep bring 400 back to the floor.
\<close>

theorem throttle_range_and_progression_witness:
  "sleep_wakes (\<lambda>x. x)
     [Timeout, HgetOk (Some ''0'') 7200, HgetOk None 7200, FetchReply (Inr vm_destroyed_a) False,
      Timeout]
     (run (\<lambda>x. x)
        [Start, ScanOk ''0'' [''vm:a'', ''vm:b'', ''vm:c''], HgetOk (Some ''0'') 7200,
         HgetOk None 7200, FetchReply (Inr vm_destroyed_a) False]
        ReaperFSM_new) = 0 \<and>
   sleep (run (\<lambda>x. x)
     [Timeout, HgetOk (Some ''0'') 7200, HgetOk None 7200, FetchReply (Inr vm_destroyed_a) False,
      Timeout]
     (run (\<lambda>x. x)
        [Start, ScanOk ''0'' [''vm:a'', ''vm:b'', ''vm:c''], HgetOk (Some ''0'') 7200,
         HgetOk None 7200, FetchReply (Inr vm_destroyed_a) False]
        ReaperFSM_new)) = min (100 * 2 ^ 2) 10000 \<and>
   full_expiries (\<lambda>x. x) [Wake, Wake, Wake]
     (run (\<lambda>x. x)
        [Start, ScanOk ''0'' [''vm:a'', ''vm:b'', ''vm:c''], HgetOk (Some ''0'') 7200,
         HgetOk None 7200, FetchReply (Inr vm_destroyed_a) False,
         Timeout, HgetOk (Some ''0'') 7200, HgetOk None 7200, FetchReply (Inr vm_destroyed_a) False,
         Timeout, HgetOk (Some ''0'') 7200, HgetOk None 7200, FetchReply (Inr vm_destroyed_a) True]
        ReaperFSM_new) = 0 \<and>
   sleep (run (\<lambda>x. x) [Wake, Wake, Wake]
     (run (\<lambda>x. x)
        [Start, ScanOk ''0'' [''vm:a'', ''vm:b'', ''vm:c''], HgetOk (Some ''0'') 7200,
         HgetOk None 7200, FetchReply (Inr vm_destroyed_a) False,
         Timeout, HgetOk (Some ''0'') 7200, HgetOk None 7200, FetchReply (Inr vm_destroyed_a) False,
         Timeout, HgetOk (Some ''0'') 7200, HgetOk None 7200, FetchReply (Inr vm_destroyed_a) True]
        ReaperFSM_new)) = max (400 / 2 ^ 3) 100"
proof -
  let ?pre = "[Start, ScanOk ''0'' [''vm:a'', ''vm:b'', ''vm:c''], HgetOk (Some ''0'') 7200,
         HgetOk None 7200, FetchReply (Inr vm_destroyed_a) False]"
  let ?evs = "[Timeout, HgetOk (Some ''0'') 7200, HgetOk None 7200,
         FetchReply (Inr vm_destroyed_a) False, Timeout]"
  let ?warm = "[Start, ScanOk ''0'' [''vm:a'', ''vm:b'', ''vm:c''], HgetOk (Some ''0'') 7200,
         HgetOk None 7200, FetchReply (Inr vm_destroyed_a) False,
         Timeout, HgetOk (Some ''0'') 7200, HgetOk None 7200, FetchReply (Inr vm_destroyed_a) False,
         Timeout, HgetOk (Some ''0'') 7200, HgetOk None 7200, FetchReply (Inr vm_destroyed_a) True]"
  have h1: "sleep_wakes (\<lambda>x. x) ?evs (run (\<lambda>x. x) ?pre ReaperFSM_new) = 0"
    by code_simp
  have "full_expiries (\<lambda>x. x) ?evs (run (\<lambda>x. x) ?pre ReaperFSM_new) = Suc (Suc 0)"
    by code_simp
  then have n1: "full_expiries (\<lambda>x. x) ?evs (run (\<lambda>x. x) ?pre ReaperFSM_new) = 2"
    by simp
  have s1: "sleep (run (\<lambda>x. x) ?pre ReaperFSM_new) = 100"
    by code_simp
  have h2: "full_expiries (\<lambda>x. x) [Wake, Wake, Wake] (run (\<lambda>x. x) ?warm ReaperFSM_new) = 0"
    by code_simp
  have "sleep_wakes (\<lambda>x. x) [Wake, Wake, Wake] (run (\<lambda>x. x) ?warm ReaperFSM_new)
          = Suc (Suc (Suc 0))"
    by code_simp
  then have n2: "sleep_wakes (\<lambda>x. x) [Wake, Wake, Wake] (run (\<lambda>x. x) ?warm ReaperFSM_new) = 3"
    by simp
  have s2: "sleep (run (\<lambda>x. x) ?warm ReaperFSM_new) = 400"
    by code_simp
  have a: "sleep (run (\<lambda>x. x) ?evs (run (\<lambda>x. x) ?pre ReaperFSM_new)) = min (100 * 2 ^ 2) 10000"
    using throttle_range_and_progression [of "\<lambda>x. x" ?evs ?pre] h1 n1 s1 by simp
  have b: "sleep (run (\<lambda>x. x) [Wake, Wake, Wake] (run (\<lambda>x. x) ?warm ReaperFSM_new))
            = max (400 / 2 ^ 3) 100"
    using throttle_range_and_progression [of "\<lambda>x. x" "[Wake, Wake, Wake]" ?warm] h2 n2 s2
    by simp
  show ?thesis using h1 a h2 b by simp
qed

text \<open>
  Claim C8. A wake signal in state sleep halves the throttle, with \<open>minSleep\<close> as the
  floor, and changes neither the state nor the armed timer; no event other than the
  expiry of the timer makes the machine leave sleep or do anything, and the expiry leads to
  next. In sleep_full a wake signal leads to next at once and leaves the throttle as it is.
\<close>

theorem wake_in_sleep_and_sleep_full:
  "(state w = Sleep \<longrightarrow>
      state (step cv Wake w) = Sleep \<and>
      timer (step cv Wake w) = timer w \<and>
      trace (step cv Wake w) = trace w \<and>
      sleep (step cv Wake w) = max (sleep w / 2) (minSleep w) \<and>
      (\<forall>e. e \<noteq> Timeout \<longrightarrow> state (step cv e w) = Sleep \<and> trace (step cv e w) = trace w) \<and>
      (timer w \<noteq> None \<longrightarrow> step cv Timeout w = gotoState Next w)) \<and>
   (state w = Sleep_full \<longrightarrow>
      step cv Wake w = gotoState Next w \<and>
      sleep (step cv Wake w) = sleep w \<and>
      take (Suc (length (trace w))) (trace (step cv Wake w)) = trace w @ [Goto Next])"
proof -
  have a: "state (step cv e w) = Sleep \<and> trace (step cv e w) = trace w"
    if "state w = Sleep" "e \<noteq> Timeout" for e
    using that
    by (cases e) (simp_all add: handler_defs Let_def split: option.splits action.splits)
  have b: "timer (step cv Wake w) = timer w \<and> sleep (step cv Wake w) = max (sleep w / 2) (minSleep w)"
    if "state w = Sleep"
    using that by (simp add: step_def wake_def Let_def max_def)
  have c: "step cv Timeout w = gotoState Next w" if "state w = Sleep" "timer w \<noteq> None"
    using that by (auto simp: step_def on_timeout_def)
  have d: "step cv Wake w = gotoState Next w" if "state w = Sleep_full"
    using that by (simp add: step_def wake_def)
  have e: "take (Suc (length (trace w))) (trace (gotoState Next w)) = trace w @ [Goto Next]"
    by (simp add: gotoState.simps entry_defs Let_def split: list.splits)
  show ?thesis using a b c d e by simp
qed

theorem wake_in_sleep_and_sleep_full_witness:
  "state sample_warm = Sleep \<and>
   state (step (\<lambda>x. x) Wake sample_warm) = Sleep \<and>
   trace (step (\<lambda>x. x) Wake sample_warm) = trace sample_warm \<and>
   sleep (step (\<lambda>x. x) Wake sample_warm) = 200 \<and>
   state sample_full = Sleep_full \<and>
   step (\<lambda>x. x) Wake sample_full = gotoState Next sample_full \<and>
   sleep (step (\<lambda>x. x) Wake sample_full) = 100"
proof -
  have a: "state sample_warm = Sleep" by code_simp
  have b: "sleep sample_warm = 400" "minSleep sample_warm = 100" by code_simp+
  have c: "state sample_full = Sleep_full" by code_simp
  have d: "sleep sample_full = 100" by code_simp
  show ?thesis
    using wake_in_sleep_and_sleep_full [where w = sample_warm and cv = "\<lambda>x. x"]
      wake_in_sleep_and_sleep_full [where w = sample_full and cv = "\<lambda>x. x"] a b c d
    by simp
qed

section \<open>One resource of the worklist\<close>

text \<open>
  Claim C4. When the \<open>last_visit\<close> read answers with a time stamp that is at most
  \<open>reapTime\<close> seconds old, the machine goes from checkLastVisited straight to next: the
  only things it does are that change of state and the step of next itself (the read of the
  following id, or the return to idle). It fetches nothing, pushes nothing and sends no
  write or delete to the store.
\<close>

theorem fresh_resource_no_action:
  assumes "state w = CheckLastVisited"
    and "pending w = Some (Hget k ''last_visit'')"
    and "parseInt val = Some lastVisited"
    and "of_int (now - lastVisited) \<le> reapTime w"
  shows "step cv (HgetOk (Some val) now) w = gotoState Next w \<and>
         trace (step cv (HgetOk (Some val) now) w) =
           trace w @ Goto Next #
             (case remaining w of
                [] \<Rightarrow> [Goto Idle]
              | x # xs \<Rightarrow> [Goto CheckLastVisited, Hget (''vm:'' @ x) ''last_visit'']) \<and>
         filter (\<lambda>a. is_fetch a \<or> is_push a \<or> is_mutation a)
           (drop (length (trace w)) (trace (step cv (HgetOk (Some val) now) w))) = []"
proof -
  have s: "step cv (HgetOk (Some val) now) w = gotoState Next w"
    using assms by (simp add: step_def on_last_visit_def)
  have t: "trace (gotoState Next w) =
           trace w @ Goto Next #
             (case remaining w of
                [] \<Rightarrow> [Goto Idle]
              | x # xs \<Rightarrow> [Goto CheckLastVisited, Hget (''vm:'' @ x) ''last_visit''])"
    by (simp add: gotoState.simps entry_defs vm_key_def uuid_string_def Let_def split: list.splits)
  show ?thesis unfolding s t by (simp split: list.splits)
qed

theorem fresh_resource_no_action_witness:
  "state sample_checking = CheckLastVisited \<and>
   pending sample_checking = Some (Hget ''vm:a'' ''last_visit'') \<and>
   parseInt ''7000'' = Some 7000 \<and>
   of_int (7200 - 7000) \<le> reapTime sample_checking \<and>
   drop (length (trace sample_checking))
     (trace (step (\<lambda>x. x) (HgetOk (Some ''7000'') 7200) sample_checking)) =
     [Goto Next, Goto CheckLastVisited, Hget ''vm:b'' ''last_visit'']"
proof -
  have a: "state sample_checking = CheckLastVisited" by code_simp
  have b: "pending sample_checking = Some (Hget ''vm:a'' ''last_visit'')" by code_simp
  have c: "parseInt ''7000'' = Some 7000" by code_simp
  have d: "of_int (7200 - 7000) \<le> reapTime sample_checking" by code_simp
  have r: "remaining sample_checking = [''b'']" by code_simp
  show ?thesis
    using fresh_resource_no_action [OF a b c d, where cv = "\<lambda>x. x", THEN conjunct2, THEN conjunct1]
      a b c d r
    by simp
qed

text \<open>
  Claim C1, amended. The machine takes the id \<open>u\<close> from the worklist; the \<open>last_visit\<close>
  read answers with a stamp more than \<open>reapTime\<close> seconds old, the \<open>reaped\<close> read finds
  no field and VMAPI answers with the object. Then the machine has done exactly this: the
  two reads, one fetch, one push of the fetched object tagged with the origin, and the
  write of \<open>reaped = yes\<close> if and only if the fetched state is terminal and the push did
  not report a full pipeline. It ends in sleep after an accepted push and in sleep_full
  otherwise.
\<close>

theorem stale_unmarked_fetch_and_push:
  assumes "remaining w = u # rest"
    and "parseInt val = Some lastVisited"
    and "of_int (now - lastVisited) > reapTime w"
  shows "trace (run cv [HgetOk (Some val) now, HgetOk None now', FetchReply (Inr obj) accepted]
                  (gotoState Next w)) =
           trace w @
           [Goto Next, Goto CheckLastVisited, Hget (''vm:'' @ u) ''last_visit'',
            Goto CheckReaped, Hget (''vm:'' @ u) ''reaped'',
            Goto FetchAndPush, Fetch u, Push ((cv obj)\<lparr>vm_origin := Some ''reaper''\<rparr>)] @
           (if accepted
            then (if terminal ((cv obj)\<lparr>vm_origin := Some ''reaper''\<rparr>)
                  then [Hset (''vm:'' @ u) ''reaped'' ''yes''] else []) @ [Goto Sleep]
            else [Goto Sleep_full]) \<and>
         length (filter is_fetch
           (drop (length (trace w))
              (trace (run cv [HgetOk (Some val) now, HgetOk None now', FetchReply (Inr obj) accepted]
                        (gotoState Next w))))) = 1 \<and>
         length (filter is_push
           (drop (length (trace w))
              (trace (run cv [HgetOk (Some val) now, HgetOk None now', FetchReply (Inr obj) accepted]
                        (gotoState Next w))))) = 1 \<and>
         (Hset (''vm:'' @ u) ''reaped'' ''yes'' \<in> set
           (drop (length (trace w))
              (trace (run cv [HgetOk (Some val) now, HgetOk None now', FetchReply (Inr obj) accepted]
                        (gotoState Next w))))
          \<longleftrightarrow> terminal ((cv obj)\<lparr>vm_origin := Some ''reaper''\<rparr>) \<and> accepted)"
proof -
  have t: "trace (run cv [HgetOk (Some val) now, HgetOk None now', FetchReply (Inr obj) accepted]
                  (gotoState Next w)) =
           trace w @
           [Goto Next, Goto CheckLastVisited, Hget (''vm:'' @ u) ''last_visit'',
            Goto CheckReaped, Hget (''vm:'' @ u) ''reaped'',
            Goto FetchAndPush, Fetch u, Push ((cv obj)\<lparr>vm_origin := Some ''reaper''\<rparr>)] @
           (if accepted
            then (if terminal ((cv obj)\<lparr>vm_origin := Some ''reaper''\<rparr>)
                  then [Hset (''vm:'' @ u) ''reaped'' ''yes''] else []) @ [Goto Sleep]
            else [Goto Sleep_full])"
    using assms by (simp add: eval_defs)
  show ?thesis unfolding t by simp
qed

theorem stale_unmarked_fetch_and_push_witness:
  "remaining sample_asleep = [''a''] \<and>
   parseInt ''0'' = Some 0 \<and>
   of_int (7200 - 0) > reapTime sample_asleep \<and>
   drop (length (trace sample_asleep))
     (trace (run (\<lambda>x. x)
        [HgetOk (Some ''0'') 7200, HgetOk None 7200, FetchReply (Inr vm_destroyed_a) True]
        (gotoState Next sample_asleep))) =
     [Goto Next, Goto CheckLastVisited, Hget ''vm:a'' ''last_visit'', Goto CheckReaped,
      Hget ''vm:a'' ''reaped'', Goto FetchAndPush, Fetch ''a'',
      Push (vm_destroyed_a\<lparr>vm_origin := Some ''reaper''\<rparr>),
      Hset ''vm:a'' ''reaped'' ''yes'', Goto Sleep]"
proof -
  have a: "remaining sample_asleep = [''a'']" by code_simp
  have b: "parseInt ''0'' = Some 0" by code_simp
  have c: "of_int (7200 - 0) > reapTime sample_asleep" by code_simp
  have t: "terminal (vm_destroyed_a\<lparr>vm_origin := Some ''reaper''\<rparr>)"
    by (simp add: terminal_def vm_destroyed_a_def)
  show ?thesis
    using stale_unmarked_fetch_and_push
      [OF a b c, where cv = "\<lambda>x. x" and now' = 7200 and obj = vm_destroyed_a
         and accepted = True, THEN conjunct1] a b c t
    by simp
qed

text \<open>
  Claim C1 as stated fails when the pipeline is full: the resource is stale and unmarked,
  the fetched state is destroyed, there is one fetch and one push, and the cycle ends
  without any write of the marker.
\<close>

theorem stale_unmarked_counterexample:
  "parseInt ''0'' = Some 0 \<and>
   of_int (7200 - 0) > reapTime ReaperFSM_new \<and>
   terminal (vm_destroyed_a\<lparr>vm_origin := Some ''reaper''\<rparr>) \<and>
   trace (run (\<lambda>x. x)
      [Start, ScanOk ''0'' [''vm:a''], HgetOk (Some ''0'') 7200, HgetOk None 7200,
       FetchReply (Inr vm_destroyed_a) False, Timeout]
      ReaperFSM_new) =
     [Goto Idle, Goto ListVms, Scan ''0'', Goto Next, Goto CheckLastVisited,
      Hget ''vm:a'' ''last_visit'', Goto CheckReaped, Hget ''vm:a'' ''reaped'',
      Goto FetchAndPush, Fetch ''a'', Push (vm_destroyed_a\<lparr>vm_origin := Some ''reaper''\<rparr>),
      Goto Sleep_full, Goto Next, Goto Idle] \<and>
   Hset ''vm:a'' ''reaped'' ''yes'' \<notin> set (trace (run (\<lambda>x. x)
      [Start, ScanOk ''0'' [''vm:a''], HgetOk (Some ''0'') 7200, HgetOk None 7200,
       FetchReply (Inr vm_destroyed_a) False, Timeout]
      ReaperFSM_new))"
  by code_simp



section \<open>Failures\<close>

text \<open>
  Every time-out of a check or of the fetch, the error of the \<open>last_visit\<close> read, of the
  \<open>reaped\<close> read and of the fetch lead to checkError, which counts the retries down from
  the 3 that next has set, tries the same resource again from checkLastVisited while the
  counter is positive and gives the resource up for next when it is not. The error of the
  \<open>last_recs\<close> read is the one failure that takes another way.
\<close>

lemma checkReaped_failures:
  assumes "state w = CheckReaped" "pending w = Some (Hget k f)"
  shows "timer w \<noteq> None \<Longrightarrow>
           step cv Timeout w = gotoState CheckError (w\<lparr>lastError := Some redis_timeout\<rparr>)"
    and "f = ''reaped'' \<Longrightarrow>
           step cv (HgetErr err) w = gotoState CheckError (w\<lparr>lastError := Some err\<rparr>)"
    and "f \<noteq> ''reaped'' \<Longrightarrow>
           step cv (HgetErr err) w = gotoState Next (emit (Del (vm_key w)) w)"
    and "trace (gotoState CheckError w') = trace w' @ [Goto CheckError]"
  using assms
  by (auto simp add: step_def on_timeout_def on_reaped_def on_last_recs_def
        gotoState.simps entry_defs Let_def)

lemma retry_counter:
  "retries (gotoState Next w) = 3"
  "retries (gotoState CheckError w) = retries w - 1"
  "vmuuid (gotoState CheckError w) = vmuuid w"
  "remaining (gotoState CheckError w) = remaining w"
  "state (gotoState CheckError w) = CheckError"
  "timer (gotoState CheckError w) = Some (if retries w - 1 > 0 then 1000 else 5000)"
  by (simp_all add: gotoState.simps entry_defs Let_def split: list.splits)

lemma failures_reach_checkError:
  "state w = CheckLastVisited \<Longrightarrow> timer w \<noteq> None \<Longrightarrow>
     step cv Timeout w = gotoState CheckError (w\<lparr>lastError := Some redis_timeout\<rparr>)"
  "state w = CheckLastVisited \<Longrightarrow> pending w = Some (Hget k f) \<Longrightarrow>
     step cv (HgetErr err) w = gotoState CheckError (w\<lparr>lastError := Some err\<rparr>)"
  "state w = FetchAndPush \<Longrightarrow> timer w \<noteq> None \<Longrightarrow>
     step cv Timeout w = gotoState CheckError (w\<lparr>lastError := Some vmapi_timeout\<rparr>)"
  "state w = FetchAndPush \<Longrightarrow> pending w = Some (Fetch u) \<Longrightarrow>
     state (step cv (FetchReply (Inl err) b) w) = CheckError \<and>
     retries (step cv (FetchReply (Inl err) b) w) = retries w - 1 \<and>
     trace (step cv (FetchReply (Inl err) b) w) = trace w @ [Goto CheckError]"
  by (auto simp add: step_def on_timeout_def on_last_visit_def on_fetch_def fetch_def
        gotoState.simps entry_defs Let_def)

lemma checkError_expiry:
  assumes "state w = CheckError" "timer w \<noteq> None"
  shows "step cv Timeout w =
           (if retries w > 0 then gotoState CheckLastVisited w else gotoState Next w)"
  using assms by (auto simp add: step_def on_timeout_def)

lemma retry_twice_then_processed:
  assumes "remaining w = u # rest"
    and "parseInt val = Some lastVisited"
    and "of_int (now - lastVisited) > reapTime w"
  shows "trace (run cv [HgetErr err, Timeout, Timeout, Timeout,
                        HgetOk (Some val) now, HgetOk None now', FetchReply (Inr obj) True]
                  (gotoState Next w)) =
           trace w @
           [Goto Next, Goto CheckLastVisited, Hget (''vm:'' @ u) ''last_visit'',
            Goto CheckError, Goto CheckLastVisited, Hget (''vm:'' @ u) ''last_visit'',
            Goto CheckError, Goto CheckLastVisited, Hget (''vm:'' @ u) ''last_visit'',
            Goto CheckReaped, Hget (''vm:'' @ u) ''reaped'',
            Goto FetchAndPush, Fetch u, Push ((cv obj)\<lparr>vm_origin := Some ''reaper''\<rparr>)] @
           (if terminal ((cv obj)\<lparr>vm_origin := Some ''reaper''\<rparr>)
            then [Hset (''vm:'' @ u) ''reaped'' ''yes''] else []) @ [Goto Sleep]"
  using assms by (simp add: eval_defs)

lemma retry_exhausted_skips:
  assumes "remaining w = u # rest"
  shows "trace (run cv [HgetErr err, Timeout, Timeout, Timeout, HgetErr err', Timeout]
                  (gotoState Next w)) =
           trace w @
           [Goto Next, Goto CheckLastVisited, Hget (''vm:'' @ u) ''last_visit'',
            Goto CheckError, Goto CheckLastVisited, Hget (''vm:'' @ u) ''last_visit'',
            Goto CheckError, Goto CheckLastVisited, Hget (''vm:'' @ u) ''last_visit'',
            Goto CheckError, Goto Next] @
           (case rest of
              [] \<Rightarrow> [Goto Idle]
            | x # xs \<Rightarrow> [Goto CheckLastVisited, Hget (''vm:'' @ x) ''last_visit''])"
  using assms by (simp add: eval_defs split: list.splits)

text \<open>
  Claim C3. The code at the input where the claim fails: the resource is stale, the
  \<open>reaped\<close> read finds the marker and the \<open>last_recs\<close> read answers with an error. The
  machine deletes the key and goes to next; it never enters checkError.
\<close>

theorem last_recs_error_deletes_record:
  "trace (run (\<lambda>x. x)
      [Start, ScanOk ''0'' [''vm:a''], HgetOk (Some ''0'') 7200, HgetOk (Some ''yes'') 7200,
       HgetErr (Error ''Error'' ''Connection is closed.'')]
      ReaperFSM_new) =
     [Goto Idle, Goto ListVms, Scan ''0'', Goto Next, Goto CheckLastVisited,
      Hget ''vm:a'' ''last_visit'', Goto CheckReaped, Hget ''vm:a'' ''reaped'',
      Hget ''vm:a'' ''last_recs'', Del ''vm:a'', Goto Next, Goto Idle]"
  by code_simp

text \<open>
  Claim C6. The code at the same input, with a second id on the worklist: the retry counter
  stands at 3 when the \<open>last_recs\<close> read fails, and the failure is followed by the delete
  and by the read for the following id, without a visit to checkError and without a
  retry.
\<close>

theorem last_recs_error_bypasses_retry:
  "retries (run (\<lambda>x. x)
      [Start, ScanOk ''0'' [''vm:a'', ''vm:b''], HgetOk (Some ''0'') 7200,
       HgetOk (Some ''yes'') 7200]
      ReaperFSM_new) = 3 \<and>
   vmuuid (run (\<lambda>x. x)
      [Start, ScanOk ''0'' [''vm:a'', ''vm:b''], HgetOk (Some ''0'') 7200,
       HgetOk (Some ''yes'') 7200, HgetErr (Error ''Error'' ''Connection is closed.'')]
      ReaperFSM_new) = Some ''b'' \<and>
   drop 8 (trace (run (\<lambda>x. x)
      [Start, ScanOk ''0'' [''vm:a'', ''vm:b''], HgetOk (Some ''0'') 7200,
       HgetOk (Some ''yes'') 7200, HgetErr (Error ''Error'' ''Connection is closed.'')]
      ReaperFSM_new)) =
     [Hget ''vm:a'' ''last_recs'', Del ''vm:a'', Goto Next, Goto CheckLastVisited,
      Hget ''vm:b'' ''last_visit'']"
  by code_simp

section \<open>The setter\<close>

text \<open>
  Claim C7, amended. \<^verbatim>\<open>setReapTime\<close> accepts exactly the numbers strictly between
  0 and 86400 (24 hours in seconds) and stores them as \<open>reapTime\<close>; every other
  argument raises an assertion error.
\<close>

theorem setReapTime_accepts:
  "(0 < r \<and> r < 86400 \<longrightarrow> setReapTime (JNumber r) w = Inr (w\<lparr>reapTime := r\<rparr>)) \<and>
   (\<not> (\<exists>x. v = JNumber x \<and> 0 < x \<and> x < 86400) \<longrightarrow> setReapTime v w = Inl AssertionError)"
  by (cases v) (auto simp: setReapTime_def assert_number_def)

theorem setReapTime_accepts_witness:
  "(0 :: rat) < 3600 \<and> (3600 :: rat) < 86400 \<and>
   setReapTime (JNumber 3600) ReaperFSM_new = Inr (ReaperFSM_new\<lparr>reapTime := 3600\<rparr>) \<and>
   \<not> (\<exists>x. JNumber 86400 = JNumber x \<and> 0 < x \<and> x < 86400) \<and>
   setReapTime (JNumber 86400) ReaperFSM_new = Inl AssertionError"
  using setReapTime_accepts [where r = 3600 and w = ReaperFSM_new and v = "JNumber 86400"]
  by simp

text \<open>
  Claim C7 as stated fails below one second: half a second is accepted. At the other end
  24 hours themselves are refused.
\<close>

theorem setReapTime_counterexample:
  "setReapTime (JNumber (1 / 2)) ReaperFSM_new = Inr (ReaperFSM_new\<lparr>reapTime := 1 / 2\<rparr>) \<and>
   \<not> (1 \<le> (1 / 2 :: rat)) \<and>
   setReapTime (JNumber (24 * 3600)) ReaperFSM_new = Inl AssertionError"
  by (simp add: setReapTime_def assert_number_def)

section \<open>A failed scan\<close>

text \<open>
  Claim C10. A scan that fails by error or by time-out leaves the worklist as it is and
  sets the cursor back to \<open>0\<close>; after the delay the scan starts again from there. When the
  new enumeration has ended, next is entered with the old worklist followed by everything
  the new enumeration collected, so every id collected before the failure that the new
  enumeration returns again is there at least twice. The sample cycle shows the
  consequence: between two visits to idle the resource \<open>a\<close> is checked, fetched and
  pushed twice.
\<close>

theorem scan_failure_duplicates_worklist:
  assumes "state w = ListVms"
    and "pending w = Some (Scan c)"
    and "timer w \<noteq> None"
    and "failure = Timeout \<or> failure = ScanErr err"
    and "\<forall>p \<in> set pages. fst p \<noteq> ''0''"
  shows "listCursor (step cv failure w) = ''0'' \<and>
         remaining (step cv failure w) = remaining w \<and>
         trace (run cv [failure, Timeout] w) =
           trace w @ [Goto ListError, Goto ListVms, Scan ''0''] \<and>
         run cv ([failure, Timeout] @ scan_replies pages @ [ScanOk ''0'' keys]) w =
           gotoState Next
             ((run cv ([failure, Timeout] @ scan_replies pages) w)
                \<lparr>listCursor := ''0'',
                 remaining := remaining w @ collected pages @ candidates keys\<rparr>) \<and>
         (\<forall>u \<in> set (remaining w).
            u \<in> set (collected pages @ candidates keys) \<longrightarrow>
            2 \<le> count_list (remaining w @ collected pages @ candidates keys) u) \<and>
         length (filter (\<lambda>a. a = Hget ''vm:a'' ''last_visit'')
                   (trace (run cv duplicate_cycle ReaperFSM_new))) = 2 \<and>
         length (filter (\<lambda>a. a = Fetch ''a'') (trace (run cv duplicate_cycle ReaperFSM_new))) = 2 \<and>
         length (filter is_push (trace (run cv duplicate_cycle ReaperFSM_new))) = 2 \<and>
         filter (\<lambda>a. a = Goto Idle) (trace (run cv duplicate_cycle ReaperFSM_new)) = [Goto Idle]"
proof -
  let ?w1 = "step cv failure w"
  let ?w2 = "step cv Timeout ?w1"
  let ?w3 = "run cv (scan_replies pages) ?w2"
  note f = scan_failure [OF assms(1-4), of cv]
  have t1: "timer ?w1 \<noteq> None" using f(5) by simp
  note r = scan_retry [OF f(1) t1 f(2)]
  have p: "state ?w3 = ListVms \<and> (\<exists>c'. pending ?w3 = Some (Scan c')) \<and>
           remaining ?w3 = remaining ?w2 @ collected pages"
    using scan_pages_run [OF r(1,2) assms(5)] .
  then obtain c' where c': "pending ?w3 = Some (Scan c')" by blast
  have a: "trace (run cv [failure, Timeout] w) =
           trace w @ [Goto ListError, Goto ListVms, Scan ''0'']"
    using f(4) r(4) by simp
  have "run cv ([failure, Timeout] @ scan_replies pages @ [ScanOk ''0'' keys]) w =
        step cv (ScanOk ''0'' keys) ?w3"
    by (simp add: run_append)
  also have "\<dots> = gotoState Next
       (?w3\<lparr>listCursor := ''0'', remaining := remaining ?w3 @ candidates keys\<rparr>)"
    using p c' by (intro scan_last_page) simp_all
  also have "remaining ?w3 @ candidates keys = remaining w @ collected pages @ candidates keys"
    using p r(3) f(3) by simp
  also have "?w3 = run cv ([failure, Timeout] @ scan_replies pages) w"
    by (simp add: run_append)
  finally have b: "run cv ([failure, Timeout] @ scan_replies pages @ [ScanOk ''0'' keys]) w =
           gotoState Next
             ((run cv ([failure, Timeout] @ scan_replies pages) w)
                \<lparr>listCursor := ''0'',
                 remaining := remaining w @ collected pages @ candidates keys\<rparr>)" .
  have d: "\<forall>u \<in> set (remaining w).
            u \<in> set (collected pages @ candidates keys) \<longrightarrow>
            2 \<le> count_list (remaining w @ collected pages @ candidates keys) u"
    using count_twice [of _ "remaining w" "collected pages @ candidates keys"] by blast
  have e: "length (filter (\<lambda>a. a = Hget ''vm:a'' ''last_visit'')
                   (trace (run cv duplicate_cycle ReaperFSM_new))) = 2"
    "length (filter (\<lambda>a. a = Fetch ''a'') (trace (run cv duplicate_cycle ReaperFSM_new))) = 2"
    "length (filter is_push (trace (run cv duplicate_cycle ReaperFSM_new))) = 2"
    "filter (\<lambda>a. a = Goto Idle) (trace (run cv duplicate_cycle ReaperFSM_new)) = [Goto Idle]"
    unfolding duplicate_cycle_trace by simp_all
  show ?thesis using f(2,3) a b d e by blast
qed

theorem scan_failure_duplicates_worklist_witness:
  "state sample_scanning = ListVms \<and>
   pending sample_scanning = Some (Scan ''5'') \<and>
   timer sample_scanning \<noteq> None \<and>
   ''7'' \<noteq> ''0'' \<and>
   remaining sample_scanning = [''a''] \<and>
   collected [(''7'', [''vm:a'', ''vm:b''])] @ candidates [''vm:c''] = [''a'', ''b'', ''c''] \<and>
   2 \<le> count_list (remaining sample_scanning @
                        collected [(''7'', [''vm:a'', ''vm:b''])] @ candidates [''vm:c'']) ''a''"
proof -
  have a: "state sample_scanning = ListVms" by code_simp
  have b: "pending sample_scanning = Some (Scan ''5'')" by code_simp
  have c: "timer sample_scanning \<noteq> None" by code_simp
  have d: "ScanErr (Error ''Error'' ''Connection is closed.'') = Timeout \<or>
           ScanErr (Error ''Error'' ''Connection is closed.'') =
             ScanErr (Error ''Error'' ''Connection is closed.'')"
    by simp
  have e: "\<forall>p \<in> set [(''7'', [''vm:a'', ''vm:b''])]. fst p \<noteq> ''0''" by simp
  have r: "remaining sample_scanning = [''a'']" by code_simp
  have k: "collected [(''7'', [''vm:a'', ''vm:b''])] @ candidates [''vm:c''] = [''a'', ''b'', ''c'']"
    by code_simp
  have "\<forall>u \<in> set (remaining sample_scanning).
            u \<in> set (collected [(''7'', [''vm:a'', ''vm:b''])] @ candidates [''vm:c'']) \<longrightarrow>
            2 \<le> count_list (remaining sample_scanning @
                   collected [(''7'', [''vm:a'', ''vm:b''])] @ candidates [''vm:c'']) u"
    using scan_failure_duplicates_worklist
      [OF a b c d e, where cv = "\<lambda>x. x" and keys = "[''vm:c'']"]
    by blast
  then have "2 \<le> count_list (remaining sample_scanning @
                   collected [(''7'', [''vm:a'', ''vm:b''])] @ candidates [''vm:c'']) ''a''"
    using r k by simp
  then show ?thesis using a b c r k by simp
qed

section \<open>After a full pipeline\<close>

subsection \<open>A resource the machine is done with\<close>

text \<open>
  Within a cycle the worklist only shrinks, and every request is about the id that next
  has taken from it. So once the machine sleeps on a resource whose id is not on the
  worklist any more, nothing is about that resource until the machine is back in idle.
\<close>

lemma uuid_string_frame [simp]:
  "uuid_string (w\<lparr>lastError := le\<rparr>) = uuid_string w"
  "uuid_string (w\<lparr>sleep := sl\<rparr>) = uuid_string w"
  "uuid_string (w\<lparr>onTimer := ot\<rparr>) = uuid_string w"
  "uuid_string (emit a w) = uuid_string w"
  "uuid_string (request a w) = uuid_string w"
  by (simp_all add: uuid_string_def emit_def request_def)

lemma emit_request_fields [simp]:
  "trace (emit a w) = trace w @ [a]" "state (emit a w) = state w"
  "remaining (emit a w) = remaining w"
  "trace (request a w) = trace w @ [a]" "state (request a w) = state w"
  "remaining (request a w) = remaining w"
  by (simp_all add: emit_def request_def)

lemma gotoState_fields:
  assumes "s \<noteq> Next"
  shows "state (gotoState s w) = s"
    and "remaining (gotoState s w) = remaining w"
    and "uuid_string (gotoState s w) = uuid_string w"
    and "trace (gotoState s w) =
           trace w @ Goto s #
             (case s of
                CheckLastVisited \<Rightarrow> [Hget (''vm:'' @ uuid_string w) ''last_visit'']
              | CheckReaped \<Rightarrow> [Hget (''vm:'' @ uuid_string w) ''reaped'']
              | FetchAndPush \<Rightarrow> [Fetch (uuid_string w)]
              | ListVms \<Rightarrow> [Scan (listCursor w)]
              | _ \<Rightarrow> [])"
  using assms
  by (cases s; simp add: gotoState.simps entry_defs vm_key_def uuid_string_def Let_def)+

lemma gotoState_Next_fields:
  "state (gotoState Next w) = (case remaining w of [] \<Rightarrow> Idle | x # xs \<Rightarrow> CheckLastVisited)"
  "remaining (gotoState Next w) = tl (remaining w)"
  "uuid_string (gotoState Next w) = (case remaining w of [] \<Rightarrow> uuid_string w | x # xs \<Rightarrow> x)"
  "trace (gotoState Next w) =
     trace w @ Goto Next #
       (case remaining w of
          [] \<Rightarrow> [Goto Idle]
        | x # xs \<Rightarrow> [Goto CheckLastVisited, Hget (''vm:'' @ x) ''last_visit''])"
  by (simp_all add: gotoState.simps entry_defs vm_key_def uuid_string_def Let_def split: list.splits)

lemmas goto_fields = gotoState_fields gotoState_Next_fields

lemma moved_on_frame [simp]:
  "moved_on u (w\<lparr>lastError := le\<rparr>) = moved_on u w"
  "moved_on u (w\<lparr>sleep := sl\<rparr>) = moved_on u w"
  "moved_on u (w\<lparr>onTimer := ot\<rparr>) = moved_on u w"
  by (simp_all add: moved_on_def)

lemma leaves_alone_same:
  assumes "moved_on u w"
  shows "leaves_alone u w w"
    and "leaves_alone u w (w\<lparr>onTimer := ot\<rparr>)"
    and "leaves_alone u w (w\<lparr>sleep := sl\<rparr>)"
  using assms by (simp_all add: leaves_alone_def)

lemma leaves_alone_goto:
  assumes "s \<in> set [CheckLastVisited, CheckReaped, FetchAndPush, Sleep_full, Sleep, CheckError]"
    and "u \<notin> set (remaining w')"
    and "uuid_string w' \<noteq> u"
    and "take (length (trace w)) (trace w') = trace w"
    and "\<forall>a \<in> set (drop (length (trace w)) (trace w')). \<not> concerns u a"
  shows "leaves_alone u w (gotoState s w')"
proof -
  have n: "s \<noteq> Next" using assms(1) by auto
  obtain pre where t: "trace w' = trace w @ pre"
    using assms(4) by (metis append_take_drop_id)
  have p: "\<forall>a \<in> set pre. \<not> concerns u a" using assms(5) t by simp
  have m: "moved_on u (gotoState s w')"
    using assms(1-3) n by (simp add: moved_on_def gotoState_fields)
  have "trace (gotoState s w') =
          trace w @ pre @ Goto s #
             (case s of
                CheckLastVisited \<Rightarrow> [Hget (''vm:'' @ uuid_string w') ''last_visit'']
              | CheckReaped \<Rightarrow> [Hget (''vm:'' @ uuid_string w') ''reaped'']
              | FetchAndPush \<Rightarrow> [Fetch (uuid_string w')]
              | ListVms \<Rightarrow> [Scan (listCursor w')]
              | _ \<Rightarrow> [])"
    using n t by (simp add: gotoState_fields)
  moreover have "\<forall>a \<in> set (case s of
                CheckLastVisited \<Rightarrow> [Hget (''vm:'' @ uuid_string w') ''last_visit'']
              | CheckReaped \<Rightarrow> [Hget (''vm:'' @ uuid_string w') ''reaped'']
              | FetchAndPush \<Rightarrow> [Fetch (uuid_string w')]
              | ListVms \<Rightarrow> [Scan (listCursor w')]
              | _ \<Rightarrow> []). \<not> concerns u a"
    using assms(3) by (cases s) simp_all
  ultimately show ?thesis using p m by (auto simp add: leaves_alone_def)
qed

lemma leaves_alone_next:
  assumes "u \<notin> set (remaining w')"
    and "take (length (trace w)) (trace w') = trace w"
    and "\<forall>a \<in> set (drop (length (trace w)) (trace w')). \<not> concerns u a"
  shows "leaves_alone u w (gotoState Next w')"
proof -
  obtain pre where t: "trace w' = trace w @ pre"
    using assms(2) by (metis append_take_drop_id)
  have p: "\<forall>a \<in> set pre. \<not> concerns u a" using assms(3) t by simp
  show ?thesis
  proof (cases "remaining w'")
    case Nil
    then show ?thesis using t p by (simp add: leaves_alone_def gotoState_Next_fields)
  next
    case (Cons x xs)
    then have "x \<noteq> u" "u \<notin> set xs" using assms(1) by auto
    then show ?thesis using t p Cons
      by (simp add: leaves_alone_def gotoState_Next_fields moved_on_def)
  qed
qed

lemma leaves_alone_request:
  assumes "moved_on u w" "\<not> concerns u a"
  shows "leaves_alone u w (request a w)"
  using assms by (simp add: leaves_alone_def moved_on_def)

lemmas leaves_alone_rules =
  leaves_alone_same leaves_alone_request leaves_alone_next leaves_alone_goto

lemma step_leaves_alone:
  assumes "moved_on u w"
  shows "leaves_alone u w (step cv e w)"
proof -
  have r: "u \<notin> set (remaining w)" using assms by (simp add: moved_on_def)
  consider "state w = Sleep_full \<or> state w = Sleep"
    | "state w = CheckLastVisited" "uuid_string w \<noteq> u"
    | "state w = CheckReaped" "uuid_string w \<noteq> u"
    | "state w = FetchAndPush" "uuid_string w \<noteq> u"
    | "state w = CheckError" "uuid_string w \<noteq> u"
    using assms by (auto simp add: moved_on_def)
  then show ?thesis
  proof cases
    case 1
    show ?thesis
    proof (cases e)
      case Start
      then show ?thesis using 1 assms
        by (auto simp add: step_def start_def Let_def leaves_alone_rules)
    next
      case Wake
      then show ?thesis using 1 assms r
        by (auto simp add: step_def wake_def Let_def leaves_alone_rules)
    next
      case Timeout
      then show ?thesis using 1 assms r
        by (auto simp add: step_def on_timeout_def Let_def leaves_alone_rules)
    next
      case (ScanErr err)
      then show ?thesis using 1 assms
        by (auto simp add: step_def leaves_alone_rules split: option.split action.split)
    next
      case (ScanOk cursor keys)
      then show ?thesis using 1 assms
        by (auto simp add: step_def leaves_alone_rules split: option.split action.split)
    next
      case (HgetErr err)
      then show ?thesis using 1 assms
        by (auto simp add: step_def leaves_alone_rules split: option.split action.split)
    next
      case (HgetOk val now)
      then show ?thesis using 1 assms
        by (auto simp add: step_def leaves_alone_rules split: option.split action.split)
    next
      case (FetchReply rep accepted)
      then show ?thesis using 1 assms
        by (auto simp add: step_def leaves_alone_rules split: option.split action.split)
    qed
  next
    case 2
    show ?thesis
    proof (cases e)
      case Start
      then show ?thesis using 2 assms
        by (auto simp add: step_def start_def Let_def leaves_alone_rules)
    next
      case Wake
      then show ?thesis using 2 assms r
        by (auto simp add: step_def wake_def Let_def leaves_alone_rules)
    next
      case Timeout
      then show ?thesis using 2 assms r
        by (auto simp add: step_def on_timeout_def Let_def leaves_alone_rules)
    next
      case (ScanErr err)
      then show ?thesis using 2 assms
        by (auto simp add: step_def leaves_alone_rules split: option.split action.split)
    next
      case (ScanOk cursor keys)
      then show ?thesis using 2 assms
        by (auto simp add: step_def leaves_alone_rules split: option.split action.split)
    next
      case (HgetErr err)
      then show ?thesis using 2 assms r
        by (auto simp add: step_def on_last_visit_def leaves_alone_rules
              split: option.split action.split)
    next
      case (HgetOk val now)
      then show ?thesis using 2 assms r
        by (auto simp add: step_def on_last_visit_def leaves_alone_rules
              split: option.split action.split)
    next
      case (FetchReply rep accepted)
      then show ?thesis using 2 assms
        by (auto simp add: step_def leaves_alone_rules split: option.split action.split)
    qed
  next
    case 3
    show ?thesis
    proof (cases e)
      case Start
      then show ?thesis using 3 assms
        by (auto simp add: step_def start_def Let_def leaves_alone_rules)
    next
      case Wake
      then show ?thesis using 3 assms r
        by (auto simp add: step_def wake_def Let_def leaves_alone_rules)
    next
      case Timeout
      then show ?thesis using 3 assms r
        by (auto simp add: step_def on_timeout_def Let_def leaves_alone_rules)
    next
      case (ScanErr err)
      then show ?thesis using 3 assms
        by (auto simp add: step_def leaves_alone_rules split: option.split action.split)
    next
      case (ScanOk cursor keys)
      then show ?thesis using 3 assms
        by (auto simp add: step_def leaves_alone_rules split: option.split action.split)
    next
      case (HgetErr err)
      then show ?thesis using 3 assms r
        by (auto simp add: step_def on_reaped_def on_last_recs_def vm_key_def leaves_alone_rules
              split: option.split action.split)
    next
      case (HgetOk val now)
      then show ?thesis using 3 assms r
        by (auto simp add: step_def on_reaped_def on_last_recs_def vm_key_def leaves_alone_rules
              split: option.split action.split)
    next
      case (FetchReply rep accepted)
      then show ?thesis using 3 assms
        by (auto simp add: step_def leaves_alone_rules split: option.split action.split)
    qed
  next
    case 4
    show ?thesis
    proof (cases e)
      case Start
      then show ?thesis using 4 assms
        by (auto simp add: step_def start_def Let_def leaves_alone_rules)
    next
      case Wake
      then show ?thesis using 4 assms r
        by (auto simp add: step_def wake_def Let_def leaves_alone_rules)
    next
      case Timeout
      then show ?thesis using 4 assms r
        by (auto simp add: step_def on_timeout_def Let_def leaves_alone_rules)
    next
      case (ScanErr err)
      then show ?thesis using 4 assms
        by (auto simp add: step_def leaves_alone_rules split: option.split action.split)
    next
      case (ScanOk cursor keys)
      then show ?thesis using 4 assms
        by (auto simp add: step_def leaves_alone_rules split: option.split action.split)
    next
      case (HgetErr err)
      then show ?thesis using 4 assms r
        by (auto simp add: step_def leaves_alone_rules split: option.split action.split)
    next
      case (HgetOk val now)
      then show ?thesis using 4 assms r
        by (auto simp add: step_def leaves_alone_rules split: option.split action.split)
    next
      case (FetchReply rep accepted)
      then show ?thesis using 4 assms r
        by (auto simp add: step_def on_fetch_def fetch_def Let_def vm_key_def leaves_alone_rules
              split: option.split action.split sum.split)
    qed
  next
    case 5
    show ?thesis
    proof (cases e)
      case Start
      then show ?thesis using 5 assms
        by (auto simp add: step_def start_def Let_def leaves_alone_rules)
    next
      case Wake
      then show ?thesis using 5 assms r
        by (auto simp add: step_def wake_def Let_def leaves_alone_rules)
    next
      case Timeout
      then show ?thesis using 5 assms r
        by (auto simp add: step_def on_timeout_def Let_def leaves_alone_rules)
    next
      case (ScanErr err)
      then show ?thesis using 5 assms
        by (auto simp add: step_def leaves_alone_rules split: option.split action.split)
    next
      case (ScanOk cursor keys)
      then show ?thesis using 5 assms
        by (auto simp add: step_def leaves_alone_rules split: option.split action.split)
    next
      case (HgetErr err)
      then show ?thesis using 5 assms r
        by (auto simp add: step_def leaves_alone_rules split: option.split action.split)
    next
      case (HgetOk val now)
      then show ?thesis using 5 assms r
        by (auto simp add: step_def leaves_alone_rules split: option.split action.split)
    next
      case (FetchReply rep accepted)
      then show ?thesis using 5 assms r
        by (auto simp add: step_def leaves_alone_rules split: option.split action.split)
    qed
  qed
qed

lemma step_trace_grows: "\<exists>new. trace (step cv e w) = trace w @ new"
proof (cases e)
  case Start
  then show ?thesis by (simp add: step_def start_def Let_def goto_fields)
next
  case Wake
  then show ?thesis by (simp add: step_def wake_def Let_def goto_fields split: state.split)
next
  case Timeout
  then show ?thesis by (simp add: step_def on_timeout_def Let_def goto_fields split: state.split)
next
  case (ScanErr err)
  then show ?thesis
    by (simp add: step_def on_scan_def goto_fields split: option.split action.split)
next
  case (ScanOk cursor keys)
  then show ?thesis
    by (simp add: step_def on_scan_def Let_def goto_fields split: option.split action.split)
next
  case (HgetErr err)
  then show ?thesis
    by (simp add: step_def on_last_visit_def on_reaped_def on_last_recs_def goto_fields
          split: option.split action.split)
next
  case (HgetOk val now)
  then show ?thesis
    by (simp add: step_def on_last_visit_def on_reaped_def on_last_recs_def goto_fields
          split: option.split action.split)
next
  case (FetchReply rep accepted)
  then show ?thesis
    by (simp add: step_def on_fetch_def Let_def goto_fields
          split: option.split action.split sum.split)
qed

lemma run_trace_grows: "\<exists>new. trace (run cv es w) = trace w @ new"
proof (induction es arbitrary: w)
  case Nil
  then show ?case by simp
next
  case (Cons e es)
  obtain n1 where "trace (step cv e w) = trace w @ n1" using step_trace_grows by blast
  moreover obtain n2 where "trace (run cv es (step cv e w)) = trace (step cv e w) @ n2"
    using Cons.IH by blast
  ultimately show ?case by simp
qed

lemma run_leaves_alone:
  assumes "moved_on u w"
  shows "\<forall>a \<in> set (takeWhile (\<lambda>a. a \<noteq> Goto Idle)
                       (drop (length (trace w)) (trace (run cv es w)))). \<not> concerns u a"
  using assms
proof (induction es arbitrary: w)
  case Nil
  then show ?case by simp
next
  case (Cons e es)
  let ?w1 = "step cv e w"
  have l: "leaves_alone u w ?w1" using Cons.prems by (rule step_leaves_alone)
  obtain new where n: "trace ?w1 = trace w @ new"
    using step_trace_grows by blast
  obtain rest where r: "trace (run cv es ?w1) = trace ?w1 @ rest"
    using run_trace_grows by blast
  have ok: "\<forall>a \<in> set new. \<not> concerns u a" using l n by (simp add: leaves_alone_def)
  have d: "drop (length (trace w)) (trace (run cv (e # es) w)) = new @ rest"
    using n r by simp
  show ?case
  proof (cases "Goto Idle \<in> set new")
    case True
    then have "takeWhile (\<lambda>a. a \<noteq> Goto Idle) (new @ rest) =
               takeWhile (\<lambda>a. a \<noteq> Goto Idle) new"
      by (intro takeWhile_append1) simp_all
    then show ?thesis using ok d by (auto dest: set_takeWhileD)
  next
    case False
    then have m: "moved_on u ?w1" using l n by (simp add: leaves_alone_def)
    have "takeWhile (\<lambda>a. a \<noteq> Goto Idle) (new @ rest) =
          new @ takeWhile (\<lambda>a. a \<noteq> Goto Idle) rest"
      using False by (intro takeWhile_append2) auto
    moreover have "\<forall>a \<in> set (takeWhile (\<lambda>a. a \<noteq> Goto Idle) rest). \<not> concerns u a"
      using Cons.IH [OF m] r by simp
    ultimately show ?thesis using ok d by auto
  qed
qed

subsection \<open>The claim\<close>

text \<open>
  Claim C9, amended. When the push in fetchAndPush reports a full pipeline, the machine
  enters sleep_full and, on the wake signal or the expiry of the timer, next, where it takes
  the following id of the worklist (or returns to idle). From the push on it sends no write
  and no delete to the store, whatever the fetched state is, and the id is not put back on
  the worklist. If the id does not occur again on the worklist, then until the machine is
  back in idle nothing it does is about the resource: no read, write or delete on its key
  and no fetch, whatever the environment answers.
\<close>

theorem full_pipeline_abandons_resource:
  assumes "state w = FetchAndPush"
    and "pending w = Some (Fetch u)"
    and "e = Wake \<or> e = Timeout"
  shows "state (step cv (FetchReply (Inr obj) False) w) = Sleep_full \<and>
         trace (step cv (FetchReply (Inr obj) False) w) =
           trace w @ [Push ((cv obj)\<lparr>vm_origin := Some ''reaper''\<rparr>), Goto Sleep_full] \<and>
         trace (run cv [FetchReply (Inr obj) False, e] w) =
           trace w @
           [Push ((cv obj)\<lparr>vm_origin := Some ''reaper''\<rparr>), Goto Sleep_full, Goto Next] @
           (case remaining w of
              [] \<Rightarrow> [Goto Idle]
            | x # xs \<Rightarrow> [Goto CheckLastVisited, Hget (''vm:'' @ x) ''last_visit'']) \<and>
         filter is_mutation
           (drop (length (trace w)) (trace (run cv [FetchReply (Inr obj) False, e] w))) = [] \<and>
         remaining (run cv [FetchReply (Inr obj) False, e] w) = tl (remaining w) \<and>
         vmuuid (run cv [FetchReply (Inr obj) False, e] w) =
           (case remaining w of [] \<Rightarrow> vmuuid w | x # xs \<Rightarrow> Some x) \<and>
         (vmuuid w = Some u \<and> u \<notin> set (remaining w) \<longrightarrow>
            (\<forall>a \<in> set (takeWhile (\<lambda>a. a \<noteq> Goto Idle)
                       (drop (length (trace w))
                          (trace (run cv (FetchReply (Inr obj) False # es) w)))).
               \<not> concerns u a))"
proof -
  let ?w1 = "step cv (FetchReply (Inr obj) False) w"
  have a: "state ?w1 = Sleep_full"
    using assms(1,2) by (simp add: eval_defs)
  have b: "trace ?w1 =
           trace w @ [Push ((cv obj)\<lparr>vm_origin := Some ''reaper''\<rparr>), Goto Sleep_full]"
    using assms(1,2) by (simp add: eval_defs)
  have c: "trace (run cv [FetchReply (Inr obj) False, e] w) =
           trace w @
           [Push ((cv obj)\<lparr>vm_origin := Some ''reaper''\<rparr>), Goto Sleep_full, Goto Next] @
           (case remaining w of
              [] \<Rightarrow> [Goto Idle]
            | x # xs \<Rightarrow> [Goto CheckLastVisited, Hget (''vm:'' @ x) ''last_visit''])"
    using assms by (auto simp add: eval_defs split: list.splits)
  have d: "remaining (run cv [FetchReply (Inr obj) False, e] w) = tl (remaining w)"
    using assms by (auto simp add: eval_defs split: list.splits)
  have f: "vmuuid (run cv [FetchReply (Inr obj) False, e] w) =
           (case remaining w of [] \<Rightarrow> vmuuid w | x # xs \<Rightarrow> Some x)"
    using assms by (auto simp add: eval_defs split: list.splits)
  have g: "\<forall>a \<in> set (takeWhile (\<lambda>a. a \<noteq> Goto Idle)
                       (drop (length (trace w))
                          (trace (run cv (FetchReply (Inr obj) False # es) w)))).
               \<not> concerns u a"
    if h: "vmuuid w = Some u \<and> u \<notin> set (remaining w)"
  proof -
    have r: "remaining ?w1 = remaining w"
      using assms(1,2) by (simp add: eval_defs)
    have m: "moved_on u ?w1" using a r h by (simp add: moved_on_def)
    obtain rest where t: "trace (run cv es ?w1) = trace ?w1 @ rest"
      using run_trace_grows by blast
    have "\<forall>a \<in> set (takeWhile (\<lambda>a. a \<noteq> Goto Idle) rest). \<not> concerns u a"
      using run_leaves_alone [OF m, of cv es] t by simp
    then show ?thesis using t b by simp
  qed
  show ?thesis unfolding c using a b d f g by (simp split: list.splits)
qed

theorem full_pipeline_abandons_resource_witness:
  "state sample_fetching = FetchAndPush \<and>
   pending sample_fetching = Some (Fetch ''a'') \<and>
   vmuuid sample_fetching = Some ''a'' \<and>
   remaining sample_fetching = [''b''] \<and>
   drop (length (trace sample_fetching))
     (trace (run (\<lambda>x. x) [FetchReply (Inr vm_destroyed_a) False, Timeout] sample_fetching)) =
     [Push (vm_destroyed_a\<lparr>vm_origin := Some ''reaper''\<rparr>), Goto Sleep_full, Goto Next,
      Goto CheckLastVisited, Hget ''vm:b'' ''last_visit''] \<and>
   remaining (run (\<lambda>x. x) [FetchReply (Inr vm_destroyed_a) False, Timeout] sample_fetching) = [] \<and>
   vmuuid (run (\<lambda>x. x) [FetchReply (Inr vm_destroyed_a) False, Timeout] sample_fetching) =
     Some ''b'' \<and>
   takeWhile (\<lambda>a. a \<noteq> Goto Idle)
     (drop (length (trace sample_fetching))
        (trace (run (\<lambda>x. x)
           [FetchReply (Inr vm_destroyed_a) False, Timeout, HgetOk (Some ''0'') 7200,
            HgetOk None 7200, FetchReply (Inr vm_running_a) True, Timeout]
           sample_fetching))) =
     [Push (vm_destroyed_a\<lparr>vm_origin := Some ''reaper''\<rparr>), Goto Sleep_full, Goto Next,
      Goto CheckLastVisited, Hget ''vm:b'' ''last_visit'', Goto CheckReaped,
      Hget ''vm:b'' ''reaped'', Goto FetchAndPush, Fetch ''b'',
      Push (vm_running_a\<lparr>vm_origin := Some ''reaper''\<rparr>), Goto Sleep, Goto Next] \<and>
   \<not> concerns ''a'' (Fetch ''b'')"
proof -
  have a: "state sample_fetching = FetchAndPush" by code_simp
  have b: "pending sample_fetching = Some (Fetch ''a'')" by code_simp
  have c: "Timeout = Wake \<or> Timeout = Timeout" by simp
  have r: "remaining sample_fetching = [''b'']" by code_simp
  have v: "vmuuid sample_fetching = Some ''a''" by code_simp
  have t: "takeWhile (\<lambda>a. a \<noteq> Goto Idle)
     (drop (length (trace sample_fetching))
        (trace (run (\<lambda>x. x)
           [FetchReply (Inr vm_destroyed_a) False, Timeout, HgetOk (Some ''0'') 7200,
            HgetOk None 7200, FetchReply (Inr vm_running_a) True, Timeout]
           sample_fetching))) =
     [Push (vm_destroyed_a\<lparr>vm_origin := Some ''reaper''\<rparr>), Goto Sleep_full, Goto Next,
      Goto CheckLastVisited, Hget ''vm:b'' ''last_visit'', Goto CheckReaped,
      Hget ''vm:b'' ''reaped'', Goto FetchAndPush, Fetch ''b'',
      Push (vm_running_a\<lparr>vm_origin := Some ''reaper''\<rparr>), Goto Sleep, Goto Next]"
    by code_simp
  note th = full_pipeline_abandons_resource
      [OF a b c, where cv = "\<lambda>x. x" and obj = vm_destroyed_a
         and es = "[Timeout, HgetOk (Some ''0'') 7200, HgetOk None 7200,
                    FetchReply (Inr vm_running_a) True, Timeout]"]
  have "\<forall>a \<in> set (takeWhile (\<lambda>a. a \<noteq> Goto Idle)
     (drop (length (trace sample_fetching))
        (trace (run (\<lambda>x. x)
           [FetchReply (Inr vm_destroyed_a) False, Timeout, HgetOk (Some ''0'') 7200,
            HgetOk None 7200, FetchReply (Inr vm_running_a) True, Timeout]
           sample_fetching)))). \<not> concerns ''a'' a"
    using th v r by simp
  then have k: "\<not> concerns ''a'' (Fetch ''b'')" unfolding t by simp
  have p: "drop (length (trace sample_fetching))
     (trace (run (\<lambda>x. x) [FetchReply (Inr vm_destroyed_a) False, Timeout] sample_fetching)) =
     [Push (vm_destroyed_a\<lparr>vm_origin := Some ''reaper''\<rparr>), Goto Sleep_full, Goto Next,
      Goto CheckLastVisited, Hget ''vm:b'' ''last_visit'']"
    using th r by simp
  have q: "remaining (run (\<lambda>x. x) [FetchReply (Inr vm_destroyed_a) False, Timeout] sample_fetching) = []"
    "vmuuid (run (\<lambda>x. x) [FetchReply (Inr vm_destroyed_a) False, Timeout] sample_fetching) =
     Some ''b''"
    using th r by simp_all
  show ?thesis using a b v r p q t k by simp
qed

text \<open>
  Claim C9 as stated fails when the id is on the worklist twice, as it is after a failed
  scan: the first push of \<open>a\<close> meets a full pipeline, and the second observation of
  \<open>a\<close>, in the same cycle, fetches it again and writes the marker.
\<close>

theorem full_pipeline_counterexample:
  "trace (run (\<lambda>x. x) duplicate_after_full ReaperFSM_new) =
     [Goto Idle, Goto ListVms, Scan ''0'', Goto ListVms, Scan ''5'', Goto ListError,
      Goto ListVms, Scan ''0'', Goto Next,
      Goto CheckLastVisited, Hget ''vm:a'' ''last_visit'', Goto CheckReaped,
      Hget ''vm:a'' ''reaped'', Goto FetchAndPush, Fetch ''a'',
      Push (vm_destroyed_a\<lparr>vm_origin := Some ''reaper''\<rparr>), Goto Sleep_full, Goto Next,
      Goto CheckLastVisited, Hget ''vm:a'' ''last_visit'', Goto CheckReaped,
      Hget ''vm:a'' ''reaped'', Goto FetchAndPush, Fetch ''a'',
      Push (vm_destroyed_a\<lparr>vm_origin := Some ''reaper''\<rparr>),
      Hset ''vm:a'' ''reaped'' ''yes'', Goto Sleep]"
  by code_simp

end
